theory Spec2Isabelle
  imports Main "HOL-Library.Word"
begin

unbundle bit_operations_syntax

section \<open>The input stream (std::istringstream)\<close>

text \<open>
  Every handler of stockfishcli.cpp reads its arguments from a \<^verbatim>\<open>std::istringstream\<close>.
  The stream is the characters not yet read and the fail bit. Once the fail bit is set,
  every later extraction fails and leaves its target untouched. The end-of-file bit is not
  kept: it is only ever set when no character is left, and an extraction from such a stream
  fails in the same way whether the bit is set or not.
\<close>

record istringstream =
  buf :: string
  failbit :: bool

definition istringstream_of :: "string \<Rightarrow> istringstream" where
  "istringstream_of s = \<lparr>buf = s, failbit = False\<rparr>"

text \<open>\<^verbatim>\<open>isspace\<close> in the "C" locale: space, \<^verbatim>\<open>\t \n \v \f \r\<close>.\<close>

definition isspace :: "char \<Rightarrow> bool" where
  "isspace c \<longleftrightarrow>
     c = CHR '' '' \<or> c = CHR 0x09 \<or> c = CHR 0x0A \<or> c = CHR 0x0B \<or> c = CHR 0x0C \<or> c = CHR 0x0D"

definition isdigit :: "char \<Rightarrow> bool" where
  "isdigit c \<longleftrightarrow> (48::nat) \<le> of_char c \<and> of_char c \<le> (57::nat)"

text \<open>
  \<^verbatim>\<open>is >> token\<close> for a \<^verbatim>\<open>std::string\<close>: skip leading white space; when nothing is
  left the extraction fails and \<^verbatim>\<open>token\<close> keeps its old value; otherwise \<^verbatim>\<open>token\<close> is
  replaced by the characters up to the next white space.
\<close>

definition get_string :: "string \<Rightarrow> istringstream \<Rightarrow> string \<times> istringstream" where
  "get_string token is =
     (if failbit is then (token, is)
      else let s = dropWhile isspace (buf is) in
        if s = [] then (token, \<lparr>buf = [], failbit = True\<rparr>)
        else (takeWhile (\<lambda>c. \<not> isspace c) s,
              \<lparr>buf = dropWhile (\<lambda>c. \<not> isspace c) s, failbit = False\<rparr>))"

definition INT_MAX :: int where
  "INT_MAX = 2147483647"

definition INT_MIN :: int where
  "INT_MIN = - 2147483648"

definition digits_value :: "string \<Rightarrow> int" where
  "digits_value ds = foldl (\<lambda>a c. 10 * a + (of_char c - 48)) 0 ds"

text \<open>
  \<^verbatim>\<open>is >> n\<close> for an \<^verbatim>\<open>int\<close> (C++11): skip leading white space; when nothing is left
  the extraction fails and \<^verbatim>\<open>n\<close> keeps its old value; otherwise read an optional sign and
  the decimal digits that follow, leaving the first other character in the stream. With no
  digit the extraction fails and stores 0; a value out of range fails and stores the nearest
  bound. The fields that \<^verbatim>\<open>go\<close> reads are taken to be of type \<^verbatim>\<open>int\<close>, 32 bits wide.
\<close>

definition get_int :: "int \<Rightarrow> istringstream \<Rightarrow> int \<times> istringstream" where
  "get_int v is =
     (if failbit is then (v, is)
      else let s = dropWhile isspace (buf is) in
        if s = [] then (v, \<lparr>buf = [], failbit = True\<rparr>)
        else
          let neg = (hd s = CHR ''-'');
              s1 = (if hd s = CHR ''-'' \<or> hd s = CHR ''+'' then tl s else s);
              ds = takeWhile isdigit s1;
              rest = dropWhile isdigit s1
          in if ds = [] then (0, \<lparr>buf = rest, failbit = True\<rparr>)
             else let n = (if neg then - digits_value ds else digits_value ds) in
               if INT_MAX < n then (INT_MAX, \<lparr>buf = rest, failbit = True\<rparr>)
               else if n < INT_MIN then (INT_MIN, \<lparr>buf = rest, failbit = True\<rparr>)
               else (n, \<lparr>buf = rest, failbit = False\<rparr>))"

section \<open>The engine behind the interpreter\<close>

text \<open>
  The interpreter calls into the engine: the position, the move parser, the renderers, and
  the constants of the build. None of them is defined in stockfishcli.cpp, so they are the
  fields of a record that every function of the interpreter takes as its first argument.
  The preprocessor symbols \<^verbatim>\<open>ATOMIC\<close>, \<^verbatim>\<open>HORDE\<close>, ... say which variants the build has.
  \<^verbatim>\<open>option_on\<close> is the conversion of an option's value to a truth value that
  \<^verbatim>\<open>if (Options["..."])\<close> applies. \<^verbatim>\<open>pos_set\<close> is \<^verbatim>\<open>Position::set\<close>; its third
  argument in the source, \<^verbatim>\<open>Threads.main()\<close>, is the same object in every call and is left
  out, and the position before the call is passed instead. \<^verbatim>\<open>gives_check\<close> includes the
  \<^verbatim>\<open>CheckInfo(pos)\<close> that the source builds from the same position. \<^verbatim>\<open>do_move\<close> returns
  the new position and the \<^verbatim>\<open>StateInfo\<close> it has filled in.
\<close>

record ('pos, 'move, 'st) engine =
  STANDARD_VARIANT :: "32 word"
  CHESS960_VARIANT :: "32 word"
  ATOMIC_VARIANT :: "32 word"
  HORDE_VARIANT :: "32 word"
  HOUSE_VARIANT :: "32 word"
  KOTH_VARIANT :: "32 word"
  RACE_VARIANT :: "32 word"
  THREECHECK_VARIANT :: "32 word"
  ATOMIC :: bool
  HORDE :: bool
  HOUSE :: bool
  KOTH :: bool
  RACE :: bool
  THREECHECK :: bool
  option_on :: "string \<Rightarrow> bool"
  pos_set :: "string \<Rightarrow> 32 word \<Rightarrow> 'pos \<Rightarrow> 'pos"
  to_move :: "'pos \<Rightarrow> string \<Rightarrow> 'move"
  MOVE_NONE :: "'move"
  gives_check :: "'pos \<Rightarrow> 'move \<Rightarrow> bool"
  StateInfo :: "'st"
  do_move :: "'pos \<Rightarrow> 'move \<Rightarrow> 'st \<Rightarrow> bool \<Rightarrow> 'pos \<times> 'st"
  pos_flip :: "'pos \<Rightarrow> 'pos"
  engine_info :: "bool \<Rightarrow> string"
  render_options :: "(string \<rightharpoonup> string) \<Rightarrow> string"
  render_pos :: "'pos \<Rightarrow> string"
  eval_trace :: "'pos \<Rightarrow> string"

text \<open>
  Modelled from the spec: the declaration of \<^verbatim>\<open>Search::LimitsType\<close> (search.h) is not
  part of the sources. The record has the fields that \<^verbatim>\<open>go\<close> assigns; the spec describes
  them as per-side time and increment, moves to go, depth, nodes, move time, mate, the
  infinite and ponder flags, the list of search moves and the start time, every numeric
  field zero and every flag false by default.
\<close>

record 'move LimitsType =
  searchmoves :: "'move list"
  time_WHITE :: int
  time_BLACK :: int
  inc_WHITE :: int
  inc_BLACK :: int
  movestogo :: int
  depth :: int
  nodes :: int
  movetime :: int
  mate :: int
  infinite_flag :: bool
  ponder :: bool
  startTime :: int

text \<open>
  Modelled from the spec: the constructor of \<^verbatim>\<open>LimitsType\<close> (search.h, not part of the
  sources) leaves every numeric field at zero, both flags false and the list of search
  moves empty. The start time is assigned by \<^verbatim>\<open>go\<close> before it is read.
\<close>

definition LimitsType0 :: "'move LimitsType" where
  "LimitsType0 =
     \<lparr>searchmoves = [], time_WHITE = 0, time_BLACK = 0, inc_WHITE = 0, inc_BLACK = 0,
      movestogo = 0, depth = 0, nodes = 0, movetime = 0, mate = 0,
      infinite_flag = False, ponder = False, startTime = 0\<rparr>"

text \<open>
  Calls into the worker subsystem have no result that the interpreter reads; the state
  keeps them in the order they were made.
\<close>

datatype ('pos, 'move, 'st) call =
  StartSearching bool
  | SearchClear
  | StartThinking 'pos "'move LimitsType" "'st list option"

text \<open>
  Modelled from the spec: the option registry (\<^verbatim>\<open>Options\<close>, declared in uci.h, not part
  of the sources) is a mapping from option name to the current value, a string, with an
  existence check and an assignment; names are compared as they are written.
\<close>

type_synonym OptionsMap = "string \<rightharpoonup> string"

text \<open>
  The globals the interpreter works on. \<^verbatim>\<open>SetupStates\<close> is a shared pointer to a stack:
  \<open>None\<close> is the null pointer, and the head of the list is the top of the stack.
  \<^verbatim>\<open>out\<close> holds the blocks written between \<^verbatim>\<open>sync_cout\<close> and \<^verbatim>\<open>sync_endl\<close>, oldest
  first.
\<close>

record ('pos, 'move, 'st) state =
  pos :: 'pos
  SetupStates :: "'st list option"
  Options :: OptionsMap
  Signals_stop :: bool
  Signals_stopOnPonderhit :: bool
  Limits :: "'move LimitsType"
  availableNodes :: int
  out :: "string list"
  calls :: "('pos, 'move, 'st) call list"

section \<open>position\<close>

definition StartFEN :: string where
  "StartFEN = ''rnbqkbnr/pppppppp/8/8/8/8/PPPPPPPP/RNBQKBNR w KQkq - 0 1''"

definition StartFENHorde :: string where
  "StartFENHorde = ''rnbqkbnr/pppppppp/8/1PP2PP1/PPPPPPPP/PPPPPPPP/PPPPPPPP/PPPPPPPP w kq - 0 1''"

text \<open>
  Modelled from the spec: \<^verbatim>\<open>Options["name"]\<close> read as a condition (the conversion is
  declared in uci.h, not part of the sources). Each variant option is in the registry by
  convention; a missing one reads as off, and reading changes nothing.
\<close>

definition option_set :: "('pos, 'move, 'st) engine \<Rightarrow> OptionsMap \<Rightarrow> string \<Rightarrow> bool" where
  "option_set e opts name = (case opts name of None \<Rightarrow> False | Some v \<Rightarrow> option_on e v)"

text \<open>Lines 44 to 70: the variant flags, from the options as they are now.\<close>

definition variant_flags :: "('pos, 'move, 'st) engine \<Rightarrow> OptionsMap \<Rightarrow> 32 word" where
  "variant_flags e opts =
     (let variant = STANDARD_VARIANT e;
          variant = (if option_set e opts ''UCI_Chess960''
                     then variant OR CHESS960_VARIANT e else variant);
          variant = (if ATOMIC e \<and> option_set e opts ''UCI_Atomic''
                     then variant OR ATOMIC_VARIANT e else variant);
          variant = (if HORDE e \<and> option_set e opts ''UCI_Horde''
                     then variant OR HORDE_VARIANT e else variant);
          variant = (if HOUSE e \<and> option_set e opts ''UCI_House''
                     then variant OR HOUSE_VARIANT e else variant);
          variant = (if KOTH e \<and> option_set e opts ''UCI_KingOfTheHill''
                     then variant OR KOTH_VARIANT e else variant);
          variant = (if RACE e \<and> option_set e opts ''UCI_Race''
                     then variant OR RACE_VARIANT e else variant);
          variant = (if THREECHECK e \<and> option_set e opts ''UCI_3Check''
                     then variant OR THREECHECK_VARIANT e else variant)
      in variant)"

lemma dropWhile_not_shorter:
  assumes "dropWhile P xs \<noteq> []"
  shows "length (dropWhile (\<lambda>c. \<not> P c) (dropWhile P xs)) < length xs"
proof -
  obtain y ys where ys: "dropWhile P xs = y # ys"
    using assms by (cases "dropWhile P xs") auto
  then have "\<not> P y"
    using hd_dropWhile [of P xs] by simp
  then have "length (dropWhile (\<lambda>c. \<not> P c) (dropWhile P xs)) \<le> length ys"
    by (simp add: ys length_dropWhile_le)
  also have "length ys < length (dropWhile P xs)"
    by (simp add: ys)
  also have "\<dots> \<le> length xs"
    by (rule length_dropWhile_le)
  finally show ?thesis .
qed

lemma get_string_shorter:
  assumes "(token', is') = get_string token is" and "\<not> failbit is'"
  shows "length (buf is') < length (buf is)"
  using assms dropWhile_not_shorter [of isspace "buf is"]
  by (auto simp: get_string_def Let_def split: if_splits)

text \<open>Line 83: \<^verbatim>\<open>while (is >> token && token != "moves") fen += token + " ";\<close>\<close>

function fen_loop :: "string \<Rightarrow> string \<Rightarrow> istringstream \<Rightarrow> string \<times> string \<times> istringstream" where
  "fen_loop token fen is =
     (case get_string token is of
        (token', is') \<Rightarrow>
          if \<not> failbit is' \<and> token' \<noteq> ''moves''
          then fen_loop token' (fen @ token' @ '' '') is'
          else (token', fen, is'))"
  by pat_completeness auto
termination
  by (relation "measure (\<lambda>(token, fen, is). length (buf is))")
     (auto dest: get_string_shorter)

declare fen_loop.simps [simp del]

text \<open>
  Lines 92 to 96: the replay loop. Each move that parses gets a fresh \<^verbatim>\<open>StateInfo\<close> pushed
  on the stack, and \<^verbatim>\<open>do_move\<close> fills that entry in while it updates the position.
\<close>

function moves_loop ::
  "('pos, 'move, 'st) engine \<Rightarrow> 'pos \<Rightarrow> 'st list \<Rightarrow> string \<Rightarrow> istringstream \<Rightarrow> 'pos \<times> 'st list" where
  "moves_loop e p stack token is =
     (case get_string token is of
        (token', is') \<Rightarrow>
          if \<not> failbit is' \<and> to_move e p token' \<noteq> MOVE_NONE e
          then (case do_move e p (to_move e p token') (StateInfo e)
                       (gives_check e p (to_move e p token')) of
                  (p', st') \<Rightarrow> moves_loop e p' (st' # stack) token' is')
          else (p, stack))"
  by pat_completeness auto
termination
  by (relation "measure (\<lambda>(e, p, stack, token, is). length (buf is))")
     (auto dest: get_string_shorter [OF sym] split: prod.splits)

declare moves_loop.simps [simp del]

text \<open>
  Lines 72 to 86: the first token selects the FEN. The result is \<open>None\<close> where the source
  returns, and otherwise the FEN, the last token read and the stream as the replay loop
  finds them.
\<close>

definition position_prefix ::
  "('pos, 'move, 'st) engine \<Rightarrow> 32 word \<Rightarrow> istringstream \<Rightarrow> (string \<times> string \<times> istringstream) option" where
  "position_prefix e variant is =
     (case get_string [] is of
        (token, is1) \<Rightarrow>
          if token = ''startpos'' then
            (let fen = (if HORDE e \<and> variant AND HORDE_VARIANT e \<noteq> 0
                        then StartFENHorde else StartFEN)
             in case get_string token is1 of (token', is2) \<Rightarrow> Some (fen, token', is2))
          else if token = ''fen'' then Some (case fen_loop token [] is1 of
                                               (token', fen, is2) \<Rightarrow> (fen, token', is2))
          else None)"

definition position ::
  "('pos, 'move, 'st) engine \<Rightarrow> ('pos, 'move, 'st) state \<Rightarrow> istringstream \<Rightarrow> ('pos, 'move, 'st) state" where
  "position e s is =
     (let variant = variant_flags e (Options s) in
      case position_prefix e variant is of
        None \<Rightarrow> s
      | Some (fen, token, is') \<Rightarrow>
          (case moves_loop e (pos_set e fen variant (pos s)) [] token is' of
             (p, stack) \<Rightarrow> s\<lparr>pos := p, SetupStates := Some stack\<rparr>))"

section \<open>setoption\<close>

text \<open>Lines 109 and 110: the name, up to the token \<^verbatim>\<open>value\<close>.\<close>

function name_loop :: "string \<Rightarrow> string \<Rightarrow> istringstream \<Rightarrow> string \<times> string \<times> istringstream" where
  "name_loop token name is =
     (case get_string token is of
        (token', is') \<Rightarrow>
          if \<not> failbit is' \<and> token' \<noteq> ''value''
          then name_loop token' (name @ (if name = [] then [] else '' '') @ token') is'
          else (token', name, is'))"
  by pat_completeness auto
termination
  by (relation "measure (\<lambda>(token, name, is). length (buf is))")
     (auto dest: get_string_shorter)

declare name_loop.simps [simp del]

text \<open>Lines 113 and 114: the value, to the end of the line.\<close>

function value_loop :: "string \<Rightarrow> string \<Rightarrow> istringstream \<Rightarrow> string \<times> string \<times> istringstream" where
  "value_loop token val is =
     (case get_string token is of
        (token', is') \<Rightarrow>
          if \<not> failbit is'
          then value_loop token' (val @ (if val = [] then [] else '' '') @ token') is'
          else (token', val, is'))"
  by pat_completeness auto
termination
  by (relation "measure (\<lambda>(token, val, is). length (buf is))")
     (auto dest: get_string_shorter)

declare value_loop.simps [simp del]

text \<open>Lines 105 to 114: the name and the value that \<^verbatim>\<open>setoption\<close> reads.\<close>

definition setoption_parse :: "istringstream \<Rightarrow> string \<times> string" where
  "setoption_parse is =
     (case get_string [] is of
        (token, is1) \<Rightarrow>
          (case name_loop token [] is1 of
             (token', name, is2) \<Rightarrow>
               (case value_loop token' [] is2 of
                  (token'', val, is3) \<Rightarrow> (name, val))))"

definition setoption ::
  "('pos, 'move, 'st) state \<Rightarrow> istringstream \<Rightarrow> ('pos, 'move, 'st) state" where
  "setoption s is =
     (case setoption_parse is of
        (name, val) \<Rightarrow>
          if Options s name \<noteq> None
          then s\<lparr>Options := (Options s)(name \<mapsto> val)\<rparr>
          else s\<lparr>out := out s @ [''No such option: '' @ name]\<rparr>)"

section \<open>go\<close>

text \<open>Lines 136 and 137: every token left becomes an entry of \<^verbatim>\<open>searchmoves\<close>.\<close>

function searchmoves_loop ::
  "('pos, 'move, 'st) engine \<Rightarrow> 'pos \<Rightarrow> string \<Rightarrow> 'move list \<Rightarrow> istringstream
     \<Rightarrow> string \<times> 'move list \<times> istringstream" where
  "searchmoves_loop e p token ms is =
     (case get_string token is of
        (token', is') \<Rightarrow>
          if \<not> failbit is'
          then searchmoves_loop e p token' (ms @ [to_move e p token']) is'
          else (token', ms, is'))"
  by pat_completeness auto
termination
  by (relation "measure (\<lambda>(e, p, token, ms, is). length (buf is))")
     (auto dest: get_string_shorter)

declare searchmoves_loop.simps [simp del]

lemma searchmoves_loop_failbit:
  "failbit (snd (snd (searchmoves_loop e p token ms is)))"
  by (induction e p token ms "is" rule: searchmoves_loop.induct)
     (subst searchmoves_loop.simps, simp split: prod.splits)

lemma get_int_shorter:
  assumes "(v', is') = get_int v is" and "\<not> failbit is"
  shows "length (buf is') \<le> length (buf is)"
proof -
  have a: "length (dropWhile isdigit (dropWhile isspace (buf is))) \<le> length (buf is)"
    by (rule le_trans [OF length_dropWhile_le length_dropWhile_le])
  have "length (tl (dropWhile isspace (buf is))) \<le> length (dropWhile isspace (buf is))"
    by simp
  then have b: "length (dropWhile isdigit (tl (dropWhile isspace (buf is)))) \<le> length (buf is)"
    using le_trans [OF length_dropWhile_le] length_dropWhile_le [of isspace "buf is"]
    by (metis le_trans)
  show ?thesis
    using assms a b by (auto simp: get_int_def Let_def split: if_splits)
qed

text \<open>
  The measure of the loop of \<^verbatim>\<open>go\<close>: a failed stream yields no further token.
\<close>

definition stream_size :: "istringstream \<Rightarrow> nat" where
  "stream_size is = (if failbit is then 0 else Suc (length (buf is)))"

lemma stream_size_get_string:
  assumes "(token', is') = get_string token is" and "\<not> failbit is'"
  shows "stream_size is' < stream_size is"
  using assms get_string_shorter [OF assms]
  by (auto simp: stream_size_def get_string_def split: if_splits)

text \<open>
  Lines 135 to 149: the body of the loop of \<^verbatim>\<open>go\<close>, for the token just read. It gives
  the token variable, the limits and the stream as the next iteration finds them.
\<close>

definition go_token ::
  "('pos, 'move, 'st) engine \<Rightarrow> 'pos \<Rightarrow> string \<Rightarrow> 'move LimitsType \<Rightarrow> istringstream
     \<Rightarrow> string \<times> 'move LimitsType \<times> istringstream" where
  "go_token e p token limits is =
     (if token = ''searchmoves'' then
        (case searchmoves_loop e p token (searchmoves limits) is of
           (token', ms, is') \<Rightarrow> (token', limits\<lparr>searchmoves := ms\<rparr>, is'))
      else if token = ''wtime'' then
        (case get_int (time_WHITE limits) is of (v, is') \<Rightarrow> (token, limits\<lparr>time_WHITE := v\<rparr>, is'))
      else if token = ''btime'' then
        (case get_int (time_BLACK limits) is of (v, is') \<Rightarrow> (token, limits\<lparr>time_BLACK := v\<rparr>, is'))
      else if token = ''winc'' then
        (case get_int (inc_WHITE limits) is of (v, is') \<Rightarrow> (token, limits\<lparr>inc_WHITE := v\<rparr>, is'))
      else if token = ''binc'' then
        (case get_int (inc_BLACK limits) is of (v, is') \<Rightarrow> (token, limits\<lparr>inc_BLACK := v\<rparr>, is'))
      else if token = ''movestogo'' then
        (case get_int (movestogo limits) is of (v, is') \<Rightarrow> (token, limits\<lparr>movestogo := v\<rparr>, is'))
      else if token = ''depth'' then
        (case get_int (depth limits) is of (v, is') \<Rightarrow> (token, limits\<lparr>depth := v\<rparr>, is'))
      else if token = ''nodes'' then
        (case get_int (nodes limits) is of (v, is') \<Rightarrow> (token, limits\<lparr>nodes := v\<rparr>, is'))
      else if token = ''movetime'' then
        (case get_int (movetime limits) is of (v, is') \<Rightarrow> (token, limits\<lparr>movetime := v\<rparr>, is'))
      else if token = ''mate'' then
        (case get_int (mate limits) is of (v, is') \<Rightarrow> (token, limits\<lparr>mate := v\<rparr>, is'))
      else if token = ''infinite'' then (token, limits\<lparr>infinite_flag := True\<rparr>, is)
      else if token = ''ponder'' then (token, limits\<lparr>ponder := True\<rparr>, is)
      else (token, limits, is))"

lemma stream_size_get_int:
  assumes "\<not> failbit is"
  shows "stream_size (snd (get_int v is)) \<le> stream_size is"
  using get_int_shorter [of "fst (get_int v is)" "snd (get_int v is)" v "is"] assms
  by (simp add: stream_size_def)

lemma stream_size_case_get_int:
  assumes "\<not> failbit is"
  shows "stream_size (snd (snd (case get_int v is of (v', is') \<Rightarrow> (token, f v', is'))))
           \<le> stream_size is"
  using stream_size_get_int [OF assms, of v] by (cases "get_int v is") simp

lemma stream_size_case_searchmoves:
  "stream_size (snd (snd (case searchmoves_loop e p token ms is of
      (token', ms', is') \<Rightarrow> (token', f ms', is')))) = 0"
  using searchmoves_loop_failbit [of e p token ms "is"]
  by (cases "searchmoves_loop e p token ms is") (simp add: stream_size_def)

lemma stream_size_go_token:
  assumes "\<not> failbit is"
  shows "stream_size (snd (snd (go_token e p token limits is))) \<le> stream_size is"
  by (simp add: go_token_def stream_size_case_get_int [OF assms] stream_size_case_searchmoves)

text \<open>Line 134: \<^verbatim>\<open>while (is >> token)\<close> around that body.\<close>

function go_loop ::
  "('pos, 'move, 'st) engine \<Rightarrow> 'pos \<Rightarrow> string \<Rightarrow> 'move LimitsType \<Rightarrow> istringstream
     \<Rightarrow> 'move LimitsType" where
  "go_loop e p token limits is =
     (case get_string token is of
        (token', is') \<Rightarrow>
          if failbit is' then limits
          else (case go_token e p token' limits is' of
                  (token'', limits', is'') \<Rightarrow> go_loop e p token'' limits' is''))"
  by pat_completeness auto
termination
proof (relation "measure (\<lambda>(e, p, token, limits, is). stream_size is)", goal_cases)
  case 1
  show ?case by simp
next
  case (2 e p token limits "is" token' is' token'' r limits' is'')
  from 2(3,4) have "is'' = snd (snd (go_token e p token' limits is'))"
    by (metis snd_conv)
  with stream_size_get_string [OF 2(1,2)] stream_size_go_token [OF 2(2), of e p token' limits]
  show ?case by simp
qed

declare go_loop.simps [simp del]

text \<open>
  Lines 129 to 132 and the loop: the limits that \<^verbatim>\<open>go\<close> builds. What \<^verbatim>\<open>now()\<close>
  returns depends on the moment of the call. The moment is told by how much of the input
  has been read, so the clock \<open>now\<close> is a function of the stream as it is when the
  clock is read. Line 132 reads it on the stream that \<^verbatim>\<open>go\<close> was given, before the loop
  extracts anything.
\<close>

definition go_limits ::
  "('pos, 'move, 'st) engine \<Rightarrow> (istringstream \<Rightarrow> int) \<Rightarrow> 'pos \<Rightarrow> istringstream
     \<Rightarrow> 'move LimitsType" where
  "go_limits e now p is = go_loop e p [] (LimitsType0\<lparr>startTime := now is\<rparr>) is"

definition go ::
  "('pos, 'move, 'st) engine \<Rightarrow> (istringstream \<Rightarrow> int) \<Rightarrow> ('pos, 'move, 'st) state
     \<Rightarrow> istringstream \<Rightarrow> ('pos, 'move, 'st) state" where
  "go e now s is =
     s\<lparr>calls := calls s @ [StartThinking (pos s) (go_limits e now (pos s) is) (SetupStates s)]\<rparr>"

section \<open>command\<close>

definition command ::
  "('pos, 'move, 'st) engine \<Rightarrow> (istringstream \<Rightarrow> int) \<Rightarrow> ('pos, 'move, 'st) state \<Rightarrow> string
     \<Rightarrow> ('pos, 'move, 'st) state" where
  "command e now s cmd =
     (case get_string [] (istringstream_of cmd) of
        (token, is) \<Rightarrow>
          if token = ''quit'' \<or> token = ''stop''
             \<or> (token = ''ponderhit'' \<and> Signals_stopOnPonderhit s)
          then s\<lparr>Signals_stop := True, calls := calls s @ [StartSearching True]\<rparr>
          else if token = ''ponderhit'' then s\<lparr>Limits := (Limits s)\<lparr>ponder := False\<rparr>\<rparr>
          else if token = ''uci'' then
            s\<lparr>out := out s @ [''id name '' @ engine_info e True @ [CHR 0x0A]
                               @ render_options e (Options s) @ [CHR 0x0A] @ ''uciok'']\<rparr>
          else if token = ''ucinewgame'' then
            s\<lparr>availableNodes := 0, calls := calls s @ [SearchClear]\<rparr>
          else if token = ''isready'' then s\<lparr>out := out s @ [''readyok'']\<rparr>
          else if token = ''go'' then go e now s is
          else if token = ''position'' then position e s is
          else if token = ''setoption'' then setoption s is
          else if token = ''flip'' then s\<lparr>pos := pos_flip e (pos s)\<rparr>
          else if token = ''d'' then s\<lparr>out := out s @ [render_pos e (pos s)]\<rparr>
          else if token = ''eval'' then s\<lparr>out := out s @ [eval_trace e (pos s)]\<rparr>
          else s\<lparr>out := out s @ [''Unknown command: '' @ cmd]\<rparr>)"

section \<open>The tokens of a command line\<close>

text \<open>
  The handlers read a stream token by token. \<open>tokens\<close> is the list of the white-space
  separated words of a string, \<open>remaining\<close> the tokens a stream still yields, and
  \<open>join\<close> puts single spaces between words. The theorems below state what the
  handlers do in terms of these lists.
\<close>

function tokens :: "string \<Rightarrow> string list" where
  "tokens s =
     (if dropWhile isspace s = [] then []
      else takeWhile (\<lambda>c. \<not> isspace c) (dropWhile isspace s)
           # tokens (dropWhile (\<lambda>c. \<not> isspace c) (dropWhile isspace s)))"
  by pat_completeness auto
termination
  by (relation "measure length") (auto intro: dropWhile_not_shorter)

declare tokens.simps [simp del]

definition remaining :: "istringstream \<Rightarrow> string list" where
  "remaining is = (if failbit is then [] else tokens (buf is))"

fun join :: "string list \<Rightarrow> string" where
  "join [] = []"
| "join [t] = t"
| "join (t # u # ts) = t @ '' '' @ join (u # ts)"

definition append_token :: "string \<Rightarrow> string \<Rightarrow> string" where
  "append_token acc t = acc @ (if acc = [] then [] else '' '') @ t"

text \<open>
  The replay loop on a list of tokens: stop at the first token that is no move of the
  current position, otherwise push the state and make the move.
\<close>

fun replay ::
  "('pos, 'move, 'st) engine \<Rightarrow> 'pos \<Rightarrow> 'st list \<Rightarrow> string list \<Rightarrow> 'pos \<times> 'st list" where
  "replay e p stack [] = (p, stack)"
| "replay e p stack (t # ts) =
     (if to_move e p t = MOVE_NONE e then (p, stack)
      else (case do_move e p (to_move e p t) (StateInfo e) (gives_check e p (to_move e p t)) of
              (p', st') \<Rightarrow> replay e p' (st' # stack) ts))"

text \<open>One step of the replay, made whatever the token is, and a run of such steps.\<close>

definition step ::
  "('pos, 'move, 'st) engine \<Rightarrow> 'pos \<times> 'st list \<Rightarrow> string \<Rightarrow> 'pos \<times> 'st list" where
  "step e ps t =
     (case do_move e (fst ps) (to_move e (fst ps) t) (StateInfo e)
             (gives_check e (fst ps) (to_move e (fst ps) t)) of
        (p', st') \<Rightarrow> (p', st' # snd ps))"

definition play ::
  "('pos, 'move, 'st) engine \<Rightarrow> 'pos \<Rightarrow> string list \<Rightarrow> 'pos \<times> 'st list" where
  "play e p ts = foldl (step e) (p, []) ts"

text \<open>The number of leading tokens that are moves, each of the position reached before it.\<close>

fun applied :: "('pos, 'move, 'st) engine \<Rightarrow> 'pos \<Rightarrow> string list \<Rightarrow> nat" where
  "applied e p [] = 0"
| "applied e p (t # ts) =
     (if to_move e p t = MOVE_NONE e then 0
      else Suc (applied e (fst (step e (p, []) t)) ts))"

text \<open>The tokens that the loop of \<^verbatim>\<open>go\<close> compares with.\<close>

definition go_keywords :: "string list" where
  "go_keywords =
     [''searchmoves'', ''wtime'', ''btime'', ''winc'', ''binc'', ''movestogo'', ''depth'',
      ''nodes'', ''movetime'', ''mate'', ''infinite'', ''ponder'']"

text \<open>
  The variant flags in the spec's words: start from the standard value and OR in one bit
  for each option that the build has and that is switched on.
\<close>

definition variant_table ::
  "('pos, 'move, 'st) engine \<Rightarrow> (bool \<times> string \<times> 32 word) list" where
  "variant_table e =
     [(True, ''UCI_Chess960'', CHESS960_VARIANT e),
      (ATOMIC e, ''UCI_Atomic'', ATOMIC_VARIANT e),
      (HORDE e, ''UCI_Horde'', HORDE_VARIANT e),
      (HOUSE e, ''UCI_House'', HOUSE_VARIANT e),
      (KOTH e, ''UCI_KingOfTheHill'', KOTH_VARIANT e),
      (RACE e, ''UCI_Race'', RACE_VARIANT e),
      (THREECHECK e, ''UCI_3Check'', THREECHECK_VARIANT e)]"

definition variant_flags_spec ::
  "('pos, 'move, 'st) engine \<Rightarrow> OptionsMap \<Rightarrow> 32 word" where
  "variant_flags_spec e opts =
     foldl (\<lambda>v (built, name, bit). if built \<and> option_set e opts name then v OR bit else v)
       (STANDARD_VARIANT e) (variant_table e)"

section \<open>A small engine to run the interpreter on\<close>

text \<open>
  A position is the FEN and the variant it was set with and the moves made since; a token
  is a move when it has four characters; the state pushed for a move is the move itself.
\<close>

definition demo_engine :: "(string \<times> 32 word \<times> string list, string, string) engine" where
  "demo_engine =
     \<lparr>STANDARD_VARIANT = 0, CHESS960_VARIANT = 1, ATOMIC_VARIANT = 2, HORDE_VARIANT = 4,
      HOUSE_VARIANT = 8, KOTH_VARIANT = 16, RACE_VARIANT = 32, THREECHECK_VARIANT = 64,
      ATOMIC = True, HORDE = True, HOUSE = True, KOTH = True, RACE = True, THREECHECK = True,
      option_on = (\<lambda>v. v = ''true''),
      pos_set = (\<lambda>fen variant p. (fen, variant, [])),
      to_move = (\<lambda>p t. if length t = 4 then t else []),
      MOVE_NONE = [],
      gives_check = (\<lambda>p m. False),
      StateInfo = [],
      do_move = (\<lambda>p m st chk. ((fst p, fst (snd p), snd (snd p) @ [m]), m)),
      pos_flip = (\<lambda>p. p),
      engine_info = (\<lambda>b. ''demo''),
      render_options = (\<lambda>opts. []),
      render_pos = (\<lambda>p. fst p),
      eval_trace = (\<lambda>p. [])\<rparr>"

definition demo_state :: "(string \<times> 32 word \<times> string list, string, string) state" where
  "demo_state =
     \<lparr>pos = ([], 0, []), SetupStates = None,
      Options = [''UCI_Chess960'' \<mapsto> ''false'', ''Hash'' \<mapsto> ''16''],
      Signals_stop = False, Signals_stopOnPonderhit = False,
      Limits = LimitsType0, availableNodes = 0, out = [], calls = []\<rparr>"

text \<open>A clock for it: the time is 100 minus the number of characters still unread.\<close>

definition demo_clock :: "istringstream \<Rightarrow> int" where
  "demo_clock is = 100 - int (length (buf is))"

section \<open>Streams and token lists\<close>

lemma remaining_of [simp]: "remaining (istringstream_of s) = tokens s"
  by (simp add: remaining_def istringstream_of_def)

lemma tokens_unfold:
  "dropWhile isspace s \<noteq> [] \<Longrightarrow>
     tokens s = takeWhile (\<lambda>c. \<not> isspace c) (dropWhile isspace s)
                # tokens (dropWhile (\<lambda>c. \<not> isspace c) (dropWhile isspace s))"
  by (subst tokens.simps) simp

lemma tokens_empty: "dropWhile isspace s = [] \<Longrightarrow> tokens s = []"
  by (subst tokens.simps) simp

lemma tokens_nonempty: "t \<in> set (tokens s) \<Longrightarrow> t \<noteq> []"
proof (induction s arbitrary: t rule: tokens.induct)
  case (1 s)
  show ?case
  proof (cases "dropWhile isspace s = []")
    case True
    with "1.prems" show ?thesis by (simp add: tokens_empty)
  next
    case False
    then obtain y ys where ys: "dropWhile isspace s = y # ys"
      by (cases "dropWhile isspace s") auto
    then have "\<not> isspace y" using hd_dropWhile [of isspace s] by simp
    then have ne: "takeWhile (\<lambda>c. \<not> isspace c) (dropWhile isspace s) \<noteq> []"
      by (simp add: ys)
    from "1.prems" have "t = takeWhile (\<lambda>c. \<not> isspace c) (dropWhile isspace s)
        \<or> t \<in> set (tokens (dropWhile (\<lambda>c. \<not> isspace c) (dropWhile isspace s)))"
      by (simp add: tokens_unfold [OF False])
    with ne "1.IH" [OF False, of t] show ?thesis
      by auto
  qed
qed

lemma get_string_Nil:
  assumes "remaining is = []"
  shows "\<exists>is'. get_string t is = (t, is') \<and> failbit is'"
proof (cases "failbit is")
  case True
  then show ?thesis by (simp add: get_string_def)
next
  case False
  with assms have "tokens (buf is) = []"
    by (simp add: remaining_def)
  then have "dropWhile isspace (buf is) = []"
    using tokens_unfold [of "buf is"] by auto
  with False show ?thesis
    by (simp add: get_string_def Let_def)
qed

lemma get_string_Cons:
  assumes "remaining is = x # xs"
  shows "\<exists>is'. get_string t is = (x, is') \<and> \<not> failbit is' \<and> remaining is' = xs"
proof -
  from assms have nf: "\<not> failbit is" and tk: "tokens (buf is) = x # xs"
    by (auto simp: remaining_def split: if_splits)
  from tk have ne: "dropWhile isspace (buf is) \<noteq> []"
    using tokens_empty [of "buf is"] by auto
  from tk have x: "x = takeWhile (\<lambda>c. \<not> isspace c) (dropWhile isspace (buf is))"
    and xs: "xs = tokens (dropWhile (\<lambda>c. \<not> isspace c) (dropWhile isspace (buf is)))"
    by (simp_all add: tokens_unfold [OF ne])
  have "get_string t is =
      (x, \<lparr>buf = dropWhile (\<lambda>c. \<not> isspace c) (dropWhile isspace (buf is)), failbit = False\<rparr>)"
    using nf ne by (simp add: get_string_def Let_def x)
  then show ?thesis
    by (simp add: remaining_def xs)
qed

lemma join_Cons: "join (a # ts) = a @ (if ts = [] then [] else '' '' @ join ts)"
  by (cases ts) auto

lemma foldl_append_token_nonempty:
  "acc \<noteq> [] \<Longrightarrow> foldl append_token acc ts = join (acc # ts)"
proof (induction ts arbitrary: acc)
  case Nil
  then show ?case by simp
next
  case (Cons t ts)
  have step: "append_token acc t = acc @ '' '' @ t"
    using Cons.prems by (simp add: append_token_def)
  have "foldl append_token (acc @ '' '' @ t) ts = join ((acc @ '' '' @ t) # ts)"
    by (rule Cons.IH) simp
  then show ?case
    by (simp add: step join_Cons)
qed

lemma foldl_append_token_join:
  assumes "\<forall>t\<in>set ts. t \<noteq> []"
  shows "foldl append_token [] ts = join ts"
proof (cases ts)
  case Nil
  then show ?thesis by simp
next
  case (Cons t us)
  with assms have "t \<noteq> []" by simp
  moreover have "append_token [] t = t"
    by (simp add: append_token_def)
  ultimately show ?thesis
    using foldl_append_token_nonempty [of t us] by (simp add: Cons)
qed

lemma name_loop_tokens:
  "remaining is = ts \<Longrightarrow>
     \<exists>t' is'. name_loop t name is
         = (t', foldl append_token name (takeWhile (\<lambda>t. t \<noteq> ''value'') ts), is')
       \<and> remaining is' = drop 1 (dropWhile (\<lambda>t. t \<noteq> ''value'') ts)"
proof (induction ts arbitrary: "is" t name)
  case Nil
  from get_string_Nil [OF Nil, of t] obtain is' where
    "get_string t is = (t, is')" "failbit is'" by blast
  then show ?case
    by (subst name_loop.simps) (simp add: remaining_def)
next
  case (Cons x xs)
  from get_string_Cons [OF Cons.prems, of t] obtain is' where
    g: "get_string t is = (x, is')" "\<not> failbit is'" "remaining is' = xs" by blast
  show ?case
  proof (cases "x = ''value''")
    case True
    with g show ?thesis by (subst name_loop.simps) simp
  next
    case False
    have "name_loop t name is = name_loop x (append_token name x) is'"
      by (subst name_loop.simps) (simp add: g False append_token_def)
    with Cons.IH [OF g(3), of x "append_token name x"] False show ?thesis
      by simp
  qed
qed

lemma value_loop_tokens:
  "remaining is = ts \<Longrightarrow>
     \<exists>t' is'. value_loop t val is = (t', foldl append_token val ts, is')"
proof (induction ts arbitrary: "is" t val)
  case Nil
  from get_string_Nil [OF Nil, of t] obtain is' where
    "get_string t is = (t, is')" "failbit is'" by blast
  then show ?case
    by (subst value_loop.simps) simp
next
  case (Cons x xs)
  from get_string_Cons [OF Cons.prems, of t] obtain is' where
    g: "get_string t is = (x, is')" "\<not> failbit is'" "remaining is' = xs" by blast
  have "value_loop t val is = value_loop x (append_token val x) is'"
    by (subst value_loop.simps) (simp add: g append_token_def)
  with Cons.IH [OF g(3), of x "append_token val x"] show ?case
    by simp
qed

lemma get_string_drop:
  "\<exists>t' is'. get_string t is = (t', is') \<and> remaining is' = drop 1 (remaining is)"
proof (cases "remaining is")
  case Nil
  from get_string_Nil [OF Nil, of t] obtain is' where
    g: "get_string t is = (t, is')" "failbit is'" by blast
  then have "remaining is' = []"
    by (simp add: remaining_def)
  with g show ?thesis
    by (simp add: Nil)
next
  case (Cons x xs)
  from get_string_Cons [OF Cons, of t] show ?thesis
    by (auto simp: Cons)
qed

lemma remaining_nonempty: "t \<in> set (remaining is) \<Longrightarrow> t \<noteq> []"
  by (auto simp: remaining_def dest: tokens_nonempty split: if_splits)

lemma setoption_parse_tokens:
  "setoption_parse is =
     (join (takeWhile (\<lambda>t. t \<noteq> ''value'') (drop 1 (remaining is))),
      join (drop 1 (dropWhile (\<lambda>t. t \<noteq> ''value'') (drop 1 (remaining is)))))"
proof -
  let ?ts = "drop 1 (remaining is)"
  obtain t1 is1 where 1: "get_string [] is = (t1, is1)" "remaining is1 = ?ts"
    using get_string_drop [of "[]" "is"] by blast
  obtain t2 is2 where 2:
    "name_loop t1 [] is1 = (t2, foldl append_token [] (takeWhile (\<lambda>t. t \<noteq> ''value'') ?ts), is2)"
    "remaining is2 = drop 1 (dropWhile (\<lambda>t. t \<noteq> ''value'') ?ts)"
    using name_loop_tokens [OF 1(2), of t1 "[]"] by blast
  obtain t3 is3 where 3:
    "value_loop t2 [] is2
       = (t3, foldl append_token [] (drop 1 (dropWhile (\<lambda>t. t \<noteq> ''value'') ?ts)), is3)"
    using value_loop_tokens [OF 2(2), of t2 "[]"] by blast
  have ne: "\<forall>t\<in>set ?ts. t \<noteq> []"
    using remaining_nonempty [of _ "is"] set_drop_subset [of 1 "remaining is"] by blast
  have a: "\<forall>t\<in>set (takeWhile (\<lambda>t. t \<noteq> ''value'') ?ts). t \<noteq> []"
    using ne by (blast dest: set_takeWhileD)
  have b: "\<forall>t\<in>set (drop 1 (dropWhile (\<lambda>t. t \<noteq> ''value'') ?ts)). t \<noteq> []"
    using ne set_drop_subset [of 1 "dropWhile (\<lambda>t. t \<noteq> ''value'') ?ts"]
    by (blast dest: set_dropWhileD)
  have "setoption_parse is =
      (foldl append_token [] (takeWhile (\<lambda>t. t \<noteq> ''value'') ?ts),
       foldl append_token [] (drop 1 (dropWhile (\<lambda>t. t \<noteq> ''value'') ?ts)))"
    by (simp add: setoption_parse_def 1(1) 2(1) 3)
  then show ?thesis
    unfolding foldl_append_token_join [OF a] foldl_append_token_join [OF b] .
qed

lemma tokens_Nil [simp]: "tokens [] = []"
  by (simp add: tokens_empty)

lemma tokens_space [simp]: "isspace c \<Longrightarrow> tokens (c # s) = tokens s"
  by (subst tokens.simps, subst (2) tokens.simps) simp

lemma tokens_char [simp]:
  "\<not> isspace c \<Longrightarrow>
     tokens (c # s) = (c # takeWhile (\<lambda>c. \<not> isspace c) s) # tokens (dropWhile (\<lambda>c. \<not> isspace c) s)"
  by (subst tokens.simps) simp


subsection \<open>The loops of position on token lists\<close>

lemma fen_loop_tokens:
  "remaining is = ts \<Longrightarrow>
     \<exists>t' is'. fen_loop t fen is
         = (t', fen @ concat (map (\<lambda>t. t @ '' '') (takeWhile (\<lambda>t. t \<noteq> ''moves'') ts)), is')
       \<and> remaining is' = drop 1 (dropWhile (\<lambda>t. t \<noteq> ''moves'') ts)"
proof (induction ts arbitrary: "is" t fen)
  case Nil
  from get_string_Nil [OF Nil, of t] obtain is' where
    "get_string t is = (t, is')" "failbit is'" by blast
  then show ?case
    by (subst fen_loop.simps) (simp add: remaining_def)
next
  case (Cons x xs)
  from get_string_Cons [OF Cons.prems, of t] obtain is' where
    g: "get_string t is = (x, is')" "\<not> failbit is'" "remaining is' = xs" by blast
  show ?case
  proof (cases "x = ''moves''")
    case True
    with g show ?thesis by (subst fen_loop.simps) simp
  next
    case False
    have "fen_loop t fen is = fen_loop x (fen @ x @ '' '') is'"
      by (subst fen_loop.simps) (simp add: g False)
    with Cons.IH [OF g(3), of x "fen @ x @ '' ''"] False show ?thesis
      by simp
  qed
qed

lemma moves_loop_replay:
  "remaining is = ts \<Longrightarrow> moves_loop e p stack t is = replay e p stack ts"
proof (induction ts arbitrary: "is" t p stack)
  case Nil
  from get_string_Nil [OF Nil, of t] obtain is' where
    "get_string t is = (t, is')" "failbit is'" by blast
  then show ?case
    by (subst moves_loop.simps) simp
next
  case (Cons x xs)
  from get_string_Cons [OF Cons.prems, of t] obtain is' where
    g: "get_string t is = (x, is')" "\<not> failbit is'" "remaining is' = xs" by blast
  show ?case
  proof (cases "to_move e p x = MOVE_NONE e")
    case True
    with g show ?thesis by (subst moves_loop.simps) simp
  next
    case False
    obtain p' st' where d: "do_move e p (to_move e p x) (StateInfo e)
        (gives_check e p (to_move e p x)) = (p', st')"
      by (cases "do_move e p (to_move e p x) (StateInfo e) (gives_check e p (to_move e p x))")
    have "moves_loop e p stack t is = moves_loop e p' (st' # stack) x is'"
      by (subst moves_loop.simps) (simp add: g False d)
    with Cons.IH [OF g(3), of p' "st' # stack" x] False d show ?thesis
      by simp
  qed
qed

lemma foldl_step_stack:
  "foldl (step e) (p, st) ts = (fst (foldl (step e) (p, []) ts), snd (foldl (step e) (p, []) ts) @ st)"
proof (induction ts arbitrary: p st)
  case Nil
  show ?case by simp
next
  case (Cons t ts)
  obtain p' st' where d: "do_move e p (to_move e p t) (StateInfo e)
      (gives_check e p (to_move e p t)) = (p', st')"
    by (cases "do_move e p (to_move e p t) (StateInfo e) (gives_check e p (to_move e p t))")
  have a: "step e (p, st) t = (p', st' # st)" for st
    by (simp add: step_def d)
  show ?case
    using Cons.IH [of p' "st' # st"] Cons.IH [of p' "[st']"]
    by (simp add: a)
qed

lemma replay_play:
  "replay e p stack ts =
     (fst (play e p (take (applied e p ts) ts)), snd (play e p (take (applied e p ts) ts)) @ stack)"
proof (induction ts arbitrary: p stack)
  case Nil
  show ?case by (simp add: play_def)
next
  case (Cons t ts)
  show ?case
  proof (cases "to_move e p t = MOVE_NONE e")
    case True
    then show ?thesis by (simp add: play_def)
  next
    case False
    obtain p' st' where d: "do_move e p (to_move e p t) (StateInfo e)
        (gives_check e p (to_move e p t)) = (p', st')"
      by (cases "do_move e p (to_move e p t) (StateInfo e) (gives_check e p (to_move e p t))")
    have a: "step e (p, []) t = (p', [st'])"
      by (simp add: step_def d)
    show ?thesis
      using False Cons.IH [of p' "st' # stack"]
        foldl_step_stack [of e p' "[st']" "take (applied e p' ts) ts"]
      by (simp add: d a play_def)
  qed
qed

lemma applied_le: "applied e p ts \<le> length ts"
  by (induction ts arbitrary: p) auto

lemma play_Cons: "play e p (t # ts) =
    (fst (play e (fst (step e (p, []) t)) ts), snd (play e (fst (step e (p, []) t)) ts) @ snd (step e (p, []) t))"
  using foldl_step_stack [of e "fst (step e (p, []) t)" "snd (step e (p, []) t)" ts]
  by (simp add: play_def)

lemma applied_legal:
  "i < applied e p ts \<Longrightarrow> to_move e (fst (play e p (take i ts))) (ts ! i) \<noteq> MOVE_NONE e"
proof (induction ts arbitrary: p i)
  case Nil
  then show ?case by simp
next
  case (Cons t ts)
  from Cons.prems have legal: "to_move e p t \<noteq> MOVE_NONE e"
    by (auto split: if_splits)
  show ?case
  proof (cases i)
    case 0
    with legal show ?thesis by (simp add: play_def)
  next
    case (Suc j)
    with Cons.prems legal have "j < applied e (fst (step e (p, []) t)) ts"
      by simp
    from Cons.IH [OF this] show ?thesis
      by (simp add: Suc play_Cons)
  qed
qed

lemma applied_stop:
  "applied e p ts < length ts \<Longrightarrow>
     to_move e (fst (play e p (take (applied e p ts) ts))) (ts ! applied e p ts) = MOVE_NONE e"
proof (induction ts arbitrary: p)
  case Nil
  then show ?case by simp
next
  case (Cons t ts)
  show ?case
  proof (cases "to_move e p t = MOVE_NONE e")
    case True
    then show ?thesis by (simp add: play_def)
  next
    case False
    with Cons.prems have "applied e (fst (step e (p, []) t)) ts < length ts"
      by simp
    from Cons.IH [OF this] False show ?thesis
      by (simp add: play_Cons)
  qed
qed

lemma length_play: "length (snd (play e p ts)) = length ts"
proof (induction ts arbitrary: p)
  case Nil
  show ?case by (simp add: play_def)
next
  case (Cons t ts)
  have "length (snd (step e (p, []) t)) = 1"
    by (simp add: step_def split: prod.splits)
  with Cons.IH show ?case
    by (simp add: play_Cons)
qed

lemma play_snoc: "play e p (ts @ [t]) = step e (play e p ts) t"
  by (simp add: play_def)

lemma position_prefix_other:
  assumes "\<forall>ts. remaining is \<noteq> ''startpos'' # ts" and "\<forall>ts. remaining is \<noteq> ''fen'' # ts"
  shows "position_prefix e v is = None"
proof (cases "remaining is")
  case Nil
  from get_string_Nil [OF Nil, of "[]"] obtain is' where
    "get_string [] is = ([], is')" by blast
  then show ?thesis
    by (simp add: position_prefix_def)
next
  case (Cons t ts)
  from get_string_Cons [OF Cons, of "[]"] obtain is' where
    g: "get_string [] is = (t, is')" by blast
  from assms Cons have "t \<noteq> ''startpos''" "t \<noteq> ''fen''"
    by auto
  with g show ?thesis
    by (simp add: position_prefix_def)
qed

lemma position_prefix_startpos:
  assumes "remaining is = ''startpos'' # ts"
  shows "\<exists>t' is'. position_prefix e v is
           = Some (if HORDE e \<and> v AND HORDE_VARIANT e \<noteq> 0 then StartFENHorde else StartFEN, t', is')
         \<and> remaining is' = drop 1 ts"
proof -
  from get_string_Cons [OF assms, of "[]"] obtain is1 where
    g: "get_string [] is = (''startpos'', is1)" "remaining is1 = ts" by blast
  from get_string_drop [of "''startpos''" is1] obtain t' is2 where
    h: "get_string ''startpos'' is1 = (t', is2)" "remaining is2 = drop 1 ts"
    unfolding g(2) by blast
  have "position_prefix e v is
      = Some (if HORDE e \<and> v AND HORDE_VARIANT e \<noteq> 0 then StartFENHorde else StartFEN, t', is2)"
    by (simp add: position_prefix_def g h)
  with h(2) show ?thesis by blast
qed

lemma position_prefix_fen:
  assumes "remaining is = ''fen'' # ts"
  shows "\<exists>t' is'. position_prefix e v is
           = Some (concat (map (\<lambda>t. t @ '' '') (takeWhile (\<lambda>t. t \<noteq> ''moves'') ts)), t', is')
         \<and> remaining is' = drop 1 (dropWhile (\<lambda>t. t \<noteq> ''moves'') ts)"
proof -
  from get_string_Cons [OF assms, of "[]"] obtain is1 where
    g: "get_string [] is = (''fen'', is1)" "remaining is1 = ts" by blast
  from fen_loop_tokens [OF g(2), of "''fen''" "[]"] obtain t' is2 where
    h: "fen_loop ''fen'' [] is1
          = (t', concat (map (\<lambda>t. t @ '' '') (takeWhile (\<lambda>t. t \<noteq> ''moves'') ts)), is2)"
       "remaining is2 = drop 1 (dropWhile (\<lambda>t. t \<noteq> ''moves'') ts)"
    by auto
  have "position_prefix e v is
      = Some (concat (map (\<lambda>t. t @ '' '') (takeWhile (\<lambda>t. t \<noteq> ''moves'') ts)), t', is2)"
    by (simp add: position_prefix_def g h(1))
  with h(2) show ?thesis by blast
qed

lemma position_replay_tokens:
  assumes "position_prefix e (variant_flags e (Options s)) is = Some (fen, t, is')"
    and "remaining is' = ts"
  shows "position e s is =
     s\<lparr>pos := fst (replay e (pos_set e fen (variant_flags e (Options s)) (pos s)) [] ts),
       SetupStates := Some (snd (replay e (pos_set e fen (variant_flags e (Options s)) (pos s)) [] ts))\<rparr>"
  by (simp add: position_def Let_def assms(1) moves_loop_replay [OF assms(2)] split: prod.splits)

lemma command_position:
  assumes "tokens cmd = ''position'' # ts"
  shows "\<exists>is'. command e now s cmd = position e s is' \<and> remaining is' = ts"
proof -
  have "remaining (istringstream_of cmd) = ''position'' # ts"
    using assms by simp
  from get_string_Cons [OF this, of "[]"] obtain is' where
    g: "get_string [] (istringstream_of cmd) = (''position'', is')" "remaining is' = ts" by blast
  have "command e now s cmd = position e s is'"
    by (simp add: command_def g(1))
  with g(2) show ?thesis by blast
qed


lemma play_take_Suc:
  "i < length ts \<Longrightarrow> play e p (take (Suc i) ts) = step e (play e p (take i ts)) (ts ! i)"
  by (simp add: take_Suc_conv_app_nth play_snoc)


lemma variant_flags_eq_spec: "variant_flags e opts = variant_flags_spec e opts"
  by (simp add: variant_flags_def variant_flags_spec_def variant_table_def Let_def)

lemma Options_position: "Options (position e s is) = Options s"
  by (simp add: position_def Let_def split: option.splits prod.splits)

lemma position_same_inputs:
  assumes "Options s' = Options s" and "pos s' = pos s"
    and "position_prefix e (variant_flags e (Options s)) is \<noteq> None"
  shows "pos (position e s' is) = pos (position e s is)"
    and "SetupStates (position e s' is) = SetupStates (position e s is)"
proof -
  from assms(3) obtain fen t is' where
    p: "position_prefix e (variant_flags e (Options s)) is = Some (fen, t, is')"
    by (cases "position_prefix e (variant_flags e (Options s)) is") auto
  show "pos (position e s' is) = pos (position e s is)"
    by (simp add: position_def Let_def assms(1,2) p split: prod.splits)
  show "SetupStates (position e s' is) = SetupStates (position e s is)"
    by (simp add: position_def Let_def assms(1,2) p split: prod.splits)
qed


subsection \<open>The loop of go on token lists\<close>

lemma searchmoves_loop_tokens:
  "remaining is = ts \<Longrightarrow>
     \<exists>t' is'. searchmoves_loop e p t ms is = (t', ms @ map (to_move e p) ts, is') \<and> failbit is'"
proof (induction ts arbitrary: "is" t ms)
  case Nil
  from get_string_Nil [OF Nil, of t] obtain is' where
    "get_string t is = (t, is')" "failbit is'" by blast
  then show ?case
    by (subst searchmoves_loop.simps) simp
next
  case (Cons x xs)
  from get_string_Cons [OF Cons.prems, of t] obtain is' where
    g: "get_string t is = (x, is')" "\<not> failbit is'" "remaining is' = xs" by blast
  have "searchmoves_loop e p t ms is = searchmoves_loop e p x (ms @ [to_move e p x]) is'"
    by (subst searchmoves_loop.simps) (simp add: g)
  with Cons.IH [OF g(3), of x "ms @ [to_move e p x]"] show ?case
    by simp
qed

lemma go_loop_failed: "failbit is \<Longrightarrow> go_loop e p t limits is = limits"
  by (subst go_loop.simps) (simp add: get_string_def)

lemma go_loop_searchmoves:
  assumes "remaining is = ''searchmoves'' # ts"
  shows "go_loop e p t limits is
           = limits\<lparr>searchmoves := searchmoves limits @ map (to_move e p) ts\<rparr>"
proof -
  from get_string_Cons [OF assms, of t] obtain is' where
    g: "get_string t is = (''searchmoves'', is')" "\<not> failbit is'" "remaining is' = ts" by blast
  from searchmoves_loop_tokens [OF g(3), of e p "''searchmoves''" "searchmoves limits"]
  obtain t' is'' where
    m: "searchmoves_loop e p ''searchmoves'' (searchmoves limits) is'
          = (t', searchmoves limits @ map (to_move e p) ts, is'')" "failbit is''"
    by blast
  have "go_loop e p t limits is
      = go_loop e p t' (limits\<lparr>searchmoves := searchmoves limits @ map (to_move e p) ts\<rparr>) is''"
    by (subst go_loop.simps) (simp add: g go_token_def m)
  then show ?thesis
    by (simp add: go_loop_failed [OF m(2)])
qed


lemma go_token_startTime: "startTime (fst (snd (go_token e p t limits is))) = startTime limits"
  by (simp add: go_token_def split: prod.splits)

lemma go_loop_startTime: "startTime (go_loop e p t limits is) = startTime limits"
proof (induction e p t limits "is" rule: go_loop.induct)
  case (1 e p token limits "is")
  obtain token' is' where g: "get_string token is = (token', is')"
    by (cases "get_string token is")
  show ?case
  proof (cases "failbit is'")
    case True
    then show ?thesis
      by (subst go_loop.simps) (simp add: g)
  next
    case False
    obtain token'' limits' is'' where t: "go_token e p token' limits is' = (token'', limits', is'')"
      by (cases "go_token e p token' limits is'")
    have "go_loop e p token limits is = go_loop e p token'' limits' is''"
      by (subst go_loop.simps) (simp add: g False t)
    moreover have "startTime (go_loop e p token'' limits' is'') = startTime limits'"
      using "1.IH" [OF g [symmetric] False t [symmetric] refl] .
    moreover have "startTime limits' = startTime limits"
      using go_token_startTime [of e p token' limits is'] by (simp add: t)
    ultimately show ?thesis by simp
  qed
qed

lemma go_token_other: "t \<notin> set go_keywords \<Longrightarrow> go_token e p t limits is = (t, limits, is)"
  by (simp add: go_keywords_def go_token_def)

lemma go_loop_skip:
  assumes "remaining is = t # ts" and "t \<notin> set go_keywords"
  shows "go_loop e p tok limits is = go_loop e p t limits (snd (get_string tok is))"
    and "remaining (snd (get_string tok is)) = ts"
proof -
  from get_string_Cons [OF assms(1), of tok] obtain is' where
    g: "get_string tok is = (t, is')" "\<not> failbit is'" "remaining is' = ts" by blast
  show "go_loop e p tok limits is = go_loop e p t limits (snd (get_string tok is))"
    by (subst go_loop.simps) (simp add: g go_token_other [OF assms(2)])
  show "remaining (snd (get_string tok is)) = ts"
    by (simp add: g)
qed

lemma go_example:
  "go_limits e now p (istringstream_of ''wtime 60000 btime 60000 movestogo 20'')
     = LimitsType0\<lparr>startTime := now (istringstream_of ''wtime 60000 btime 60000 movestogo 20''),
         time_WHITE := 60000, time_BLACK := 60000, movestogo := 20\<rparr>"
  by (simp add: go_limits_def go_loop.simps get_string_def go_token_def get_int_def
        istringstream_of_def isspace_def isdigit_def digits_value_def INT_MAX_def INT_MIN_def
        LimitsType0_def)

subsection \<open>The dispatcher\<close>

lemma command_first_token:
  assumes "tokens cmd = t # ts"
  shows "\<exists>is'. get_string [] (istringstream_of cmd) = (t, is') \<and> \<not> failbit is' \<and> remaining is' = ts"
proof -
  have "remaining (istringstream_of cmd) = t # ts"
    using assms by simp
  from get_string_Cons [OF this, of "[]"] show ?thesis .
qed

lemma command_stop:
  "command e now s ''stop'' = s\<lparr>Signals_stop := True, calls := calls s @ [StartSearching True]\<rparr>"
  by (simp add: command_def get_string_def istringstream_of_def isspace_def)


lemma position_remaining_cong:
  assumes "remaining is' = remaining is"
  shows "position e s is' = position e s is"
proof -
  let ?v = "variant_flags e (Options s)"
  consider (startpos) ts where "remaining is = ''startpos'' # ts"
    | (fen) ts where "remaining is = ''fen'' # ts"
    | (other) "\<forall>ts. remaining is \<noteq> ''startpos'' # ts" "\<forall>ts. remaining is \<noteq> ''fen'' # ts"
    by (cases "\<exists>ts. remaining is = ''startpos'' # ts"; cases "\<exists>ts. remaining is = ''fen'' # ts")
       (simp_all, blast+)
  then show ?thesis
  proof cases
    case startpos
    from position_prefix_startpos [OF startpos, of e ?v] obtain t1 is1 where
      a: "position_prefix e ?v is = Some (if HORDE e \<and> ?v AND HORDE_VARIANT e \<noteq> 0
            then StartFENHorde else StartFEN, t1, is1)" "remaining is1 = drop 1 ts"
      by blast
    from startpos assms have "remaining is' = ''startpos'' # ts" by simp
    from position_prefix_startpos [OF this, of e ?v] obtain t2 is2 where
      b: "position_prefix e ?v is' = Some (if HORDE e \<and> ?v AND HORDE_VARIANT e \<noteq> 0
            then StartFENHorde else StartFEN, t2, is2)" "remaining is2 = drop 1 ts"
      by blast
    show ?thesis
      by (simp only: position_replay_tokens [OF a] position_replay_tokens [OF b])
  next
    case fen
    from position_prefix_fen [OF fen, of e ?v] obtain t1 is1 where
      a: "position_prefix e ?v is
            = Some (concat (map (\<lambda>t. t @ '' '') (takeWhile (\<lambda>t. t \<noteq> ''moves'') ts)), t1, is1)"
         "remaining is1 = drop 1 (dropWhile (\<lambda>t. t \<noteq> ''moves'') ts)"
      by blast
    from fen assms have "remaining is' = ''fen'' # ts" by simp
    from position_prefix_fen [OF this, of e ?v] obtain t2 is2 where
      b: "position_prefix e ?v is'
            = Some (concat (map (\<lambda>t. t @ '' '') (takeWhile (\<lambda>t. t \<noteq> ''moves'') ts)), t2, is2)"
         "remaining is2 = drop 1 (dropWhile (\<lambda>t. t \<noteq> ''moves'') ts)"
      by blast
    show ?thesis
      by (simp only: position_replay_tokens [OF a] position_replay_tokens [OF b])
  next
    case other
    then have "position_prefix e ?v is = None" "position_prefix e ?v is' = None"
      using position_prefix_other [of "is" e ?v] position_prefix_other [of is' e ?v] assms
      by simp_all
    then show ?thesis
      by (simp add: position_def)
  qed
qed

lemma command_position_tokens:
  assumes "tokens cmd = ''position'' # remaining is"
  shows "command e now s cmd = position e s is"
proof -
  from command_position [OF assms, of e now s] obtain is' where
    c: "command e now s cmd = position e s is'" and r: "remaining is' = remaining is"
    by blast
  show ?thesis
    unfolding c by (rule position_remaining_cong [OF r])
qed

lemma command_setoption_tokens:
  assumes "tokens cmd = ''setoption'' # remaining is"
  shows "command e now s cmd = setoption s is"
proof -
  from command_first_token [OF assms] obtain is' where
    g: "get_string [] (istringstream_of cmd) = (''setoption'', is')"
    and r: "remaining is' = remaining is"
    by blast
  have "setoption_parse is' = setoption_parse is"
    unfolding setoption_parse_tokens r ..
  then have "setoption s is' = setoption s is"
    by (simp add: setoption_def)
  then show ?thesis
    by (simp add: command_def g)
qed

subsection \<open>The small engine on concrete input\<close>

lemma demo_variant: "variant_flags demo_engine (Options demo_state) = 0"
  by (simp add: variant_flags_def option_set_def demo_engine_def demo_state_def)

lemma demo_horde: "HORDE demo_engine" "HORDE_VARIANT demo_engine = 4"
  by (simp_all add: demo_engine_def)

lemma demo_pos_set: "pos_set demo_engine fen v p = (fen, v, [])"
  by (simp add: demo_engine_def)

lemma demo_replay_Cons:
  "replay demo_engine p stack (t # ts) =
     (if length t = 4 then replay demo_engine (fst p, fst (snd p), snd (snd p) @ [t]) (t # stack) ts
      else (p, stack))"
  by (simp add: demo_engine_def)


lemma demo_step: "step demo_engine (p, st) t = ((fst p, fst (snd p), snd (snd p) @ [if length t = 4 then t else []]), (if length t = 4 then t else []) # st)"
  by (simp add: step_def demo_engine_def)

lemma demo_applied_Cons:
  "applied demo_engine p (t # ts) =
     (if length t = 4 then Suc (applied demo_engine (fst p, fst (snd p), snd (snd p) @ [t]) ts) else 0)"
  by (simp add: demo_engine_def step_def)

lemma demo_command_position:
  "command demo_engine now s ''position startpos''
     = position demo_engine s \<lparr>buf = '' startpos'', failbit = False\<rparr>"
  by (simp add: command_def get_string_def istringstream_of_def isspace_def)

lemma demo_command_setoption:
  "command demo_engine now s ''setoption name UCI_Chess960 value true''
     = setoption s \<lparr>buf = '' name UCI_Chess960 value true'', failbit = False\<rparr>"
  by (simp add: command_def get_string_def istringstream_of_def isspace_def)

lemma demo_prefix_startpos:
  "position_prefix demo_engine v \<lparr>buf = '' startpos'', failbit = False\<rparr>
     = Some (if v AND 4 \<noteq> 0 then StartFENHorde else StartFEN, ''startpos'',
             \<lparr>buf = [], failbit = True\<rparr>)"
  by (simp add: position_prefix_def get_string_def isspace_def demo_horde)

lemma demo_parse_chess960:
  "setoption_parse \<lparr>buf = '' name UCI_Chess960 value true'', failbit = False\<rparr>
     = (''UCI_Chess960'', ''true'')"
  by (simp add: setoption_parse_tokens remaining_def isspace_def)

section \<open>setoption: the name and the value\<close>

text \<open>
  C7. In \<^verbatim>\<open>setoption\<close>, after the first token is consumed, the tokens up to (but not
  including) a token \<^verbatim>\<open>value\<close> are joined with single spaces to form the option name,
  and the tokens after \<^verbatim>\<open>value\<close> are joined with single spaces to form the new value.
  With no token \<^verbatim>\<open>value\<close> the value is the empty string. The line
  \<^verbatim>\<open>name Some Long Name value\<close> gives the name \<^verbatim>\<open>Some Long Name\<close> and the empty
  value, which a registered option of that name is then set to.
\<close>

theorem setoption_name_value_joined:
  "setoption_parse is =
     (join (takeWhile (\<lambda>t. t \<noteq> ''value'') (drop 1 (remaining is))),
      join (drop 1 (dropWhile (\<lambda>t. t \<noteq> ''value'') (drop 1 (remaining is)))))
   \<and> (''value'' \<notin> set (drop 1 (remaining is)) \<longrightarrow> snd (setoption_parse is) = [])
   \<and> setoption_parse (istringstream_of ''name Some Long Name value'') = (''Some Long Name'', [])
   \<and> Options (setoption (s\<lparr>Options := (Options s)(''Some Long Name'' \<mapsto> v)\<rparr>)
                 (istringstream_of ''name Some Long Name value'')) ''Some Long Name'' = Some []"
proof -
  have novalue: "snd (setoption_parse is) = []" if "''value'' \<notin> set (drop 1 (remaining is))"
  proof -
    from that have "\<forall>t\<in>set (drop 1 (remaining is)). t \<noteq> ''value''"
      by blast
    then have "dropWhile (\<lambda>t. t \<noteq> ''value'') (drop 1 (remaining is)) = []"
      by (simp only: dropWhile_eq_Nil_conv)
    then show ?thesis
      unfolding setoption_parse_tokens by (simp del: dropWhile_eq_Nil_conv)
  qed
  have ex: "setoption_parse (istringstream_of ''name Some Long Name value'') = (''Some Long Name'', [])"
    by (simp add: setoption_parse_tokens isspace_def)
  have reg: "Options (setoption (s\<lparr>Options := (Options s)(''Some Long Name'' \<mapsto> v)\<rparr>)
                 (istringstream_of ''name Some Long Name value'')) ''Some Long Name'' = Some []"
    unfolding setoption_def ex by simp
  show ?thesis
    using novalue ex reg setoption_parse_tokens [of "is"] by blast
qed


text \<open>The line \<^verbatim>\<open>name Hash\<close> has no token \<^verbatim>\<open>value\<close>: the name is \<^verbatim>\<open>Hash\<close>, the value empty.\<close>

theorem setoption_name_value_joined_witness:
  "''value'' \<notin> set (drop 1 (remaining (istringstream_of ''name Hash'')))
   \<and> setoption_parse (istringstream_of ''name Hash'') = (''Hash'', [])"
  using setoption_name_value_joined [where ?is = "istringstream_of ''name Hash''"
      and s = demo_state and v = "[]"]
  by (simp add: isspace_def)

text \<open>
  C4. For every \<^verbatim>\<open>setoption\<close> command: when the joined name is in the option registry,
  its value becomes the joined value and nothing is written; when it is not, exactly one
  line \<^verbatim>\<open>No such option: <name>\<close> is written and the registry is unchanged. In both
  cases the registry has the same names after the command as before. A command line whose
  first token is \<^verbatim>\<open>setoption\<close> has the effect of \<^verbatim>\<open>setoption\<close> on the tokens after
  it.
\<close>

theorem setoption_registry:
  "(Options s (fst (setoption_parse is)) \<noteq> None \<longrightarrow>
      setoption s is
        = s\<lparr>Options := (Options s)(fst (setoption_parse is) \<mapsto> snd (setoption_parse is))\<rparr>
      \<and> out (setoption s is) = out s)
   \<and> (Options s (fst (setoption_parse is)) = None \<longrightarrow>
      setoption s is = s\<lparr>out := out s @ [''No such option: '' @ fst (setoption_parse is)]\<rparr>
      \<and> Options (setoption s is) = Options s)
   \<and> dom (Options (setoption s is)) = dom (Options s)
   \<and> (\<forall>cmd. tokens cmd = ''setoption'' # remaining is \<longrightarrow>
         command e now s cmd = setoption s is)"
proof (cases "setoption_parse is")
  case (Pair name val)
  have c: "\<forall>cmd. tokens cmd = ''setoption'' # remaining is \<longrightarrow>
      command e now s cmd = setoption s is"
    by (simp add: command_setoption_tokens)
  show ?thesis
  proof (cases "Options s name")
    case None
    then show ?thesis using c by (simp add: setoption_def Pair)
  next
    case (Some old)
    then have "insert name (dom (Options s)) = dom (Options s)"
      by auto
    with Some show ?thesis using c by (simp add: setoption_def Pair)
  qed
qed

text \<open>
  The line \<^verbatim>\<open>name Hash value 128\<close>, first with \<^verbatim>\<open>Hash\<close> registered and then on an
  empty registry.
\<close>

theorem setoption_registry_witness:
  "fst (setoption_parse (istringstream_of ''name Hash value 128'')) = ''Hash''
   \<and> Options demo_state ''Hash'' = Some ''16''
   \<and> Options (setoption demo_state (istringstream_of ''name Hash value 128'')) ''Hash'' = Some ''128''
   \<and> out (setoption demo_state (istringstream_of ''name Hash value 128'')) = out demo_state
   \<and> Options (demo_state\<lparr>Options := Map.empty\<rparr>) ''Hash'' = None
   \<and> out (setoption (demo_state\<lparr>Options := Map.empty\<rparr>) (istringstream_of ''name Hash value 128''))
       = [''No such option: Hash'']
   \<and> Options (setoption (demo_state\<lparr>Options := Map.empty\<rparr>) (istringstream_of ''name Hash value 128''))
       = Map.empty"
proof -
  have p: "setoption_parse (istringstream_of ''name Hash value 128'') = (''Hash'', ''128'')"
    by (simp add: setoption_parse_tokens isspace_def)
  have a: "Options demo_state ''Hash'' = Some ''16''"
    by (simp add: demo_state_def)
  have b: "out demo_state = []"
    by (simp add: demo_state_def)
  show ?thesis
    using setoption_registry [of demo_state "istringstream_of ''name Hash value 128''"]
      setoption_registry [of "demo_state\<lparr>Options := Map.empty\<rparr>"
        "istringstream_of ''name Hash value 128''"]
    by (simp add: p a b)
qed

section \<open>position: an unrecognised first token\<close>

text \<open>
  C3. When the first token of the input to \<^verbatim>\<open>position\<close> is neither \<^verbatim>\<open>startpos\<close>
  nor \<^verbatim>\<open>fen\<close> (or there is no token at all), \<^verbatim>\<open>position\<close> returns with the whole
  state as it was: the position is not set, the stack is not replaced, no move is made. The
  same holds for the command line \<^verbatim>\<open>position ...\<close> given to the dispatcher.
\<close>

theorem position_unrecognised_no_change:
  assumes "\<forall>ts. remaining is \<noteq> ''startpos'' # ts" and "\<forall>ts. remaining is \<noteq> ''fen'' # ts"
  shows "position e s is = s
         \<and> (\<forall>cmd. tokens cmd = ''position'' # remaining is \<longrightarrow> command e now s cmd = s)"
proof -
  have a: "position e s is' = s" if "remaining is' = remaining is" for is'
    using position_prefix_other [of is' e "variant_flags e (Options s)"] assms that
    by (simp add: position_def)
  have "command e now s cmd = s" if "tokens cmd = ''position'' # remaining is" for cmd
    using command_position [OF that, of e now s] a by auto
  with a [of "is"] show ?thesis by blast
qed

text \<open>The input \<^verbatim>\<open>e2e4 e7e5\<close>, and the command line \<^verbatim>\<open>position e2e4 e7e5\<close>.\<close>

theorem position_unrecognised_no_change_witness:
  "(\<forall>ts. remaining (istringstream_of ''e2e4 e7e5'') \<noteq> ''startpos'' # ts)
   \<and> (\<forall>ts. remaining (istringstream_of ''e2e4 e7e5'') \<noteq> ''fen'' # ts)
   \<and> position demo_engine demo_state (istringstream_of ''e2e4 e7e5'') = demo_state
   \<and> tokens ''position e2e4 e7e5'' = ''position'' # remaining (istringstream_of ''e2e4 e7e5'')
   \<and> command demo_engine demo_clock demo_state ''position e2e4 e7e5'' = demo_state"
proof -
  have t: "remaining (istringstream_of ''e2e4 e7e5'') = [''e2e4'', ''e7e5'']"
    by (simp add: isspace_def)
  have c: "tokens ''position e2e4 e7e5'' = ''position'' # remaining (istringstream_of ''e2e4 e7e5'')"
    by (simp add: isspace_def)
  have h: "\<forall>ts. remaining (istringstream_of ''e2e4 e7e5'') \<noteq> ''startpos'' # ts"
    "\<forall>ts. remaining (istringstream_of ''e2e4 e7e5'') \<noteq> ''fen'' # ts"
    unfolding t by simp_all
  from position_unrecognised_no_change [OF h, of demo_engine demo_state demo_clock] c h
  show ?thesis by blast
qed

section \<open>position: the token after startpos\<close>

text \<open>
  C5, as the code has it. When the first token is \<^verbatim>\<open>startpos\<close>, the initial FEN is
  selected (the Horde FEN when the build has \<^verbatim>\<open>HORDE\<close> and the Horde flag is set, the
  standard FEN otherwise) and then exactly one more token is read, whatever it is: line 80
  extracts a token and does not compare it with \<^verbatim>\<open>moves\<close>. The replay loop starts at
  the token after that one.
\<close>

theorem position_startpos_consumes_one_token:
  assumes "remaining is = ''startpos'' # ts"
    and "fen = (if HORDE e \<and> variant_flags e (Options s) AND HORDE_VARIANT e \<noteq> 0
                then StartFENHorde else StartFEN)"
  shows "(\<exists>t' is'. position_prefix e (variant_flags e (Options s)) is = Some (fen, t', is')
            \<and> remaining is' = drop 1 ts)
         \<and> position e s is =
             s\<lparr>pos := fst (replay e (pos_set e fen (variant_flags e (Options s)) (pos s)) []
                             (drop 1 ts)),
               SetupStates := Some (snd (replay e (pos_set e fen (variant_flags e (Options s)) (pos s)) []
                             (drop 1 ts)))\<rparr>"
proof -
  from position_prefix_startpos [OF assms(1), of e "variant_flags e (Options s)"]
  obtain t' is' where
    p: "position_prefix e (variant_flags e (Options s)) is = Some (fen, t', is')"
      "remaining is' = drop 1 ts"
    unfolding assms(2) by blast
  from position_replay_tokens [OF p] p show ?thesis
    by blast
qed

text \<open>The input \<^verbatim>\<open>startpos moves e2e4\<close>: the token \<^verbatim>\<open>moves\<close> is read, \<^verbatim>\<open>e2e4\<close> is replayed.\<close>

theorem position_startpos_consumes_one_token_witness:
  "remaining (istringstream_of ''startpos moves e2e4'') = ''startpos'' # [''moves'', ''e2e4'']
   \<and> position demo_engine demo_state (istringstream_of ''startpos moves e2e4'')
       = demo_state\<lparr>pos := (StartFEN, 0, [''e2e4'']), SetupStates := Some [''e2e4'']\<rparr>"
proof -
  have t: "remaining (istringstream_of ''startpos moves e2e4'') = ''startpos'' # [''moves'', ''e2e4'']"
    by (simp add: isspace_def)
  have f: "StartFEN = (if HORDE demo_engine
        \<and> variant_flags demo_engine (Options demo_state) AND HORDE_VARIANT demo_engine \<noteq> 0
      then StartFENHorde else StartFEN)"
    by (simp add: demo_variant)
  from position_startpos_consumes_one_token [OF t f] t show ?thesis
    by (simp add: demo_variant demo_pos_set demo_replay_Cons del: replay.simps(2))
qed

text \<open>
  C5 as stated says that a token after \<^verbatim>\<open>startpos\<close> other than \<^verbatim>\<open>moves\<close> is left
  for the replay loop. On \<^verbatim>\<open>startpos e2e4\<close> the token \<^verbatim>\<open>e2e4\<close>, a move of the
  start position, is read by line 80 and never replayed: the stack stays empty, while
  \<^verbatim>\<open>startpos moves e2e4\<close> makes the move.
\<close>

theorem position_startpos_next_token_lost:
  "position demo_engine demo_state (istringstream_of ''startpos e2e4'')
     = demo_state\<lparr>pos := (StartFEN, 0, []), SetupStates := Some []\<rparr>
   \<and> to_move demo_engine (StartFEN, 0, []) ''e2e4'' \<noteq> MOVE_NONE demo_engine
   \<and> position demo_engine demo_state (istringstream_of ''startpos moves e2e4'')
     = demo_state\<lparr>pos := (StartFEN, 0, [''e2e4'']), SetupStates := Some [''e2e4'']\<rparr>"
proof -
  have t: "remaining (istringstream_of ''startpos e2e4'') = ''startpos'' # [''e2e4'']"
    by (simp add: isspace_def)
  from position_prefix_startpos [OF t, of demo_engine "0"] obtain t' is' where
    p: "position_prefix demo_engine (variant_flags demo_engine (Options demo_state))
          (istringstream_of ''startpos e2e4'') = Some (StartFEN, t', is')"
      "remaining is' = []"
    by (auto simp: demo_variant demo_horde)
  have a: "position demo_engine demo_state (istringstream_of ''startpos e2e4'')
     = demo_state\<lparr>pos := (StartFEN, 0, []), SetupStates := Some []\<rparr>"
    using position_replay_tokens [OF p] by (simp add: demo_variant demo_pos_set)
  have u: "remaining (istringstream_of ''startpos moves e2e4'') = ''startpos'' # [''moves'', ''e2e4'']"
    by (simp add: isspace_def)
  from position_prefix_startpos [OF u, of demo_engine "0"] obtain t'' is'' where
    q: "position_prefix demo_engine (variant_flags demo_engine (Options demo_state))
          (istringstream_of ''startpos moves e2e4'') = Some (StartFEN, t'', is'')"
      "remaining is'' = [''e2e4'']"
    by (auto simp: demo_variant demo_horde)
  have b: "position demo_engine demo_state (istringstream_of ''startpos moves e2e4'')
     = demo_state\<lparr>pos := (StartFEN, 0, [''e2e4'']), SetupStates := Some [''e2e4'']\<rparr>"
    using position_replay_tokens [OF q]
    by (simp add: demo_variant demo_pos_set demo_replay_Cons del: replay.simps(2))
  have c: "to_move demo_engine (StartFEN, 0, []) ''e2e4'' \<noteq> MOVE_NONE demo_engine"
    by (simp add: demo_engine_def)
  from a b c show ?thesis by blast
qed

section \<open>position: replaying the move list\<close>

text \<open>
  C2, as the code has it. For every \<^verbatim>\<open>position\<close> command with a recognised prefix, let
  \<open>ts\<close> be the tokens left when the prefix has been read: after \<^verbatim>\<open>fen\<close>, the tokens
  that follow the keyword \<^verbatim>\<open>moves\<close>; after \<^verbatim>\<open>startpos\<close>, the tokens that follow the
  one token read next, which is the keyword \<^verbatim>\<open>moves\<close> in a well-formed command and is
  dropped whatever it is. Let \<open>p0\<close> be the position that \<^verbatim>\<open>set\<close> installs and \<open>n\<close>
  the number of moves replayed. Then the position ends at the state reached by making the
  first \<open>n\<close> moves of \<open>ts\<close> from \<open>p0\<close>; each of these tokens is a move of the
  position reached before it; token \<open>n\<close>, if there is one, is no move of the final
  position, and nothing after it is applied; the stack has exactly \<open>n\<close> entries, the
  entry of each move pushed on top of those of the moves before it; and nothing is
  written. A command line whose first token is \<^verbatim>\<open>position\<close> has the effect of
  \<^verbatim>\<open>position\<close> on the tokens after it.
\<close>

theorem position_replays_longest_legal_prefix:
  assumes "remaining is = ''startpos'' # us \<and> ts = drop 1 us
             \<and> fen = (if HORDE e \<and> variant_flags e (Options s) AND HORDE_VARIANT e \<noteq> 0
                      then StartFENHorde else StartFEN)
           \<or> remaining is = ''fen'' # us \<and> ts = drop 1 (dropWhile (\<lambda>t. t \<noteq> ''moves'') us)
             \<and> fen = concat (map (\<lambda>t. t @ '' '') (takeWhile (\<lambda>t. t \<noteq> ''moves'') us))"
    and "p0 = pos_set e fen (variant_flags e (Options s)) (pos s)"
    and "n = applied e p0 ts"
  shows "position e s is =
           s\<lparr>pos := fst (play e p0 (take n ts)), SetupStates := Some (snd (play e p0 (take n ts)))\<rparr>
         \<and> n \<le> length ts
         \<and> (\<forall>i<n. to_move e (fst (play e p0 (take i ts))) (ts ! i) \<noteq> MOVE_NONE e)
         \<and> (n < length ts \<longrightarrow> to_move e (fst (play e p0 (take n ts))) (ts ! n) = MOVE_NONE e)
         \<and> length (snd (play e p0 (take n ts))) = n
         \<and> (\<forall>i<n. play e p0 (take (Suc i) ts) = step e (play e p0 (take i ts)) (ts ! i))
         \<and> out (position e s is) = out s
         \<and> (\<forall>cmd. tokens cmd = ''position'' # remaining is \<longrightarrow>
               command e now s cmd = position e s is)"
proof -
  let ?v = "variant_flags e (Options s)"
  have "\<exists>t' is'. position_prefix e ?v is = Some (fen, t', is') \<and> remaining is' = ts"
    using assms(1)
  proof (elim disjE conjE)
    assume a: "remaining is = ''startpos'' # us" and t: "ts = drop 1 us"
      and f: "fen = (if HORDE e \<and> ?v AND HORDE_VARIANT e \<noteq> 0 then StartFENHorde else StartFEN)"
    from position_prefix_startpos [OF a, of e ?v] show ?thesis
      unfolding f t .
  next
    assume a: "remaining is = ''fen'' # us"
      and t: "ts = drop 1 (dropWhile (\<lambda>t. t \<noteq> ''moves'') us)"
      and f: "fen = concat (map (\<lambda>t. t @ '' '') (takeWhile (\<lambda>t. t \<noteq> ''moves'') us))"
    from position_prefix_fen [OF a, of e ?v] show ?thesis
      unfolding f t .
  qed
  then obtain t' is' where
    p: "position_prefix e ?v is = Some (fen, t', is')" "remaining is' = ts"
    by blast
  have r: "replay e p0 [] ts = play e p0 (take n ts)"
    by (simp add: replay_play [of e p0 "[]" ts] assms(3))
  have 1: "position e s is =
      s\<lparr>pos := fst (play e p0 (take n ts)), SetupStates := Some (snd (play e p0 (take n ts)))\<rparr>"
    using position_replay_tokens [OF p] by (simp add: assms(2) [symmetric] r)
  have 2: "n \<le> length ts"
    unfolding assms(3) by (rule applied_le)
  have 3: "\<forall>i<n. to_move e (fst (play e p0 (take i ts))) (ts ! i) \<noteq> MOVE_NONE e"
    unfolding assms(3) by (simp add: applied_legal)
  have 4: "n < length ts \<longrightarrow> to_move e (fst (play e p0 (take n ts))) (ts ! n) = MOVE_NONE e"
    unfolding assms(3) by (simp add: applied_stop)
  have 5: "length (snd (play e p0 (take n ts))) = n"
    using 2 by (simp add: length_play)
  have 6: "\<forall>i<n. play e p0 (take (Suc i) ts) = step e (play e p0 (take i ts)) (ts ! i)"
    using 2 by (simp add: play_take_Suc)
  have 7: "out (position e s is) = out s"
    unfolding 1 by simp
  have 8: "\<forall>cmd. tokens cmd = ''position'' # remaining is \<longrightarrow>
      command e now s cmd = position e s is"
    by (simp add: command_position_tokens)
  from 1 2 3 4 5 6 7 8 show ?thesis by blast
qed

text \<open>
  The input \<^verbatim>\<open>fen 8/8 w moves e2e4 e7e5 x d2d4\<close>: two moves are replayed, \<^verbatim>\<open>x\<close> is no
  move, and \<^verbatim>\<open>d2d4\<close> is not looked at.
\<close>

theorem position_replays_longest_legal_prefix_witness:
  "remaining (istringstream_of ''fen 8/8 w moves e2e4 e7e5 x d2d4'')
      = ''fen'' # [''8/8'', ''w'', ''moves'', ''e2e4'', ''e7e5'', ''x'', ''d2d4'']
   \<and> [''e2e4'', ''e7e5'', ''x'', ''d2d4'']
      = drop 1 (dropWhile (\<lambda>t. t \<noteq> ''moves'')
          [''8/8'', ''w'', ''moves'', ''e2e4'', ''e7e5'', ''x'', ''d2d4''])
   \<and> ''8/8 w '' = concat (map (\<lambda>t. t @ '' '') (takeWhile (\<lambda>t. t \<noteq> ''moves'')
          [''8/8'', ''w'', ''moves'', ''e2e4'', ''e7e5'', ''x'', ''d2d4'']))
   \<and> applied demo_engine (''8/8 w '', 0, []) [''e2e4'', ''e7e5'', ''x'', ''d2d4''] = 2
   \<and> position demo_engine demo_state (istringstream_of ''fen 8/8 w moves e2e4 e7e5 x d2d4'')
       = demo_state\<lparr>pos := (''8/8 w '', 0, [''e2e4'', ''e7e5'']),
                     SetupStates := Some [''e7e5'', ''e2e4'']\<rparr>
   \<and> to_move demo_engine (''8/8 w '', 0, [''e2e4'', ''e7e5'']) ''x'' = MOVE_NONE demo_engine"
proof -
  let ?us = "[''8/8'', ''w'', ''moves'', ''e2e4'', ''e7e5'', ''x'', ''d2d4'']"
  let ?ts = "[''e2e4'', ''e7e5'', ''x'', ''d2d4'']"
  have t: "remaining (istringstream_of ''fen 8/8 w moves e2e4 e7e5 x d2d4'') = ''fen'' # ?us"
    by (simp add: isspace_def)
  have m: "?ts = drop 1 (dropWhile (\<lambda>t. t \<noteq> ''moves'') ?us)"
    by simp
  have f: "''8/8 w '' = concat (map (\<lambda>t. t @ '' '') (takeWhile (\<lambda>t. t \<noteq> ''moves'') ?us))"
    by simp
  have p0: "(''8/8 w '', 0, []) = pos_set demo_engine ''8/8 w ''
      (variant_flags demo_engine (Options demo_state)) (pos demo_state)"
    by (simp add: demo_variant demo_pos_set)
  have n: "2 = applied demo_engine (''8/8 w '', 0, []) ?ts"
    by (simp add: demo_applied_Cons del: applied.simps(2))
  have pl: "play demo_engine (''8/8 w '', 0, []) [''e2e4'', ''e7e5'']
      = ((''8/8 w '', 0, [''e2e4'', ''e7e5'']), [''e7e5'', ''e2e4''])"
    by (simp add: play_def demo_step)
  have x: "to_move demo_engine (''8/8 w '', 0, [''e2e4'', ''e7e5'']) ''x'' = MOVE_NONE demo_engine"
    by (simp add: demo_engine_def)
  have h: "remaining (istringstream_of ''fen 8/8 w moves e2e4 e7e5 x d2d4'') = ''startpos'' # ?us
        \<and> ?ts = drop 1 ?us
        \<and> ''8/8 w '' = (if HORDE demo_engine
            \<and> variant_flags demo_engine (Options demo_state) AND HORDE_VARIANT demo_engine \<noteq> 0
          then StartFENHorde else StartFEN)
      \<or> remaining (istringstream_of ''fen 8/8 w moves e2e4 e7e5 x d2d4'') = ''fen'' # ?us
        \<and> ?ts = drop 1 (dropWhile (\<lambda>t. t \<noteq> ''moves'') ?us)
        \<and> ''8/8 w '' = concat (map (\<lambda>t. t @ '' '') (takeWhile (\<lambda>t. t \<noteq> ''moves'') ?us))"
    using t m f by blast
  have "position demo_engine demo_state (istringstream_of ''fen 8/8 w moves e2e4 e7e5 x d2d4'')
       = demo_state\<lparr>pos := fst (play demo_engine (''8/8 w '', 0, []) (take 2 ?ts)),
                     SetupStates := Some (snd (play demo_engine (''8/8 w '', 0, []) (take 2 ?ts)))\<rparr>"
    using position_replays_longest_legal_prefix [OF h p0 n] by blast
  also have "take 2 ?ts = [''e2e4'', ''e7e5'']"
    by (simp add: numeral_2_eq_2)
  finally have "position demo_engine demo_state (istringstream_of ''fen 8/8 w moves e2e4 e7e5 x d2d4'')
       = demo_state\<lparr>pos := (''8/8 w '', 0, [''e2e4'', ''e7e5'']),
                     SetupStates := Some [''e7e5'', ''e2e4'']\<rparr>"
    unfolding pl by simp
  with t m f n [symmetric] x show ?thesis by blast
qed

text \<open>
  C2 as stated takes the move list to be what follows the prefix \<^verbatim>\<open>startpos\<close>. On
  \<^verbatim>\<open>startpos e2e4 e7e5\<close> both tokens are moves, each of the position reached before it,
  so the longest prefix that parses has two moves and ends with both made and two entries
  on the stack. The code reads \<^verbatim>\<open>e2e4\<close> at line 80 and replays \<^verbatim>\<open>e7e5\<close> alone: one
  move made, one entry on the stack.
\<close>

theorem position_startpos_first_move_not_replayed:
  "tokens ''startpos e2e4 e7e5'' = [''startpos'', ''e2e4'', ''e7e5'']
   \<and> applied demo_engine (StartFEN, 0, []) [''e2e4'', ''e7e5''] = 2
   \<and> play demo_engine (StartFEN, 0, []) [''e2e4'', ''e7e5'']
       = ((StartFEN, 0, [''e2e4'', ''e7e5'']), [''e7e5'', ''e2e4''])
   \<and> position demo_engine demo_state (istringstream_of ''startpos e2e4 e7e5'')
       = demo_state\<lparr>pos := (StartFEN, 0, [''e7e5'']), SetupStates := Some [''e7e5'']\<rparr>"
proof -
  have t: "tokens ''startpos e2e4 e7e5'' = [''startpos'', ''e2e4'', ''e7e5'']"
    by (simp add: isspace_def)
  then have r: "remaining (istringstream_of ''startpos e2e4 e7e5'') = ''startpos'' # [''e2e4'', ''e7e5'']"
    by simp
  have n: "applied demo_engine (StartFEN, 0, []) [''e2e4'', ''e7e5''] = 2"
    by (simp add: demo_applied_Cons del: applied.simps(2))
  have pl: "play demo_engine (StartFEN, 0, []) [''e2e4'', ''e7e5'']
       = ((StartFEN, 0, [''e2e4'', ''e7e5'']), [''e7e5'', ''e2e4''])"
    by (simp add: play_def demo_step)
  from position_prefix_startpos [OF r, of demo_engine "0"] obtain t' is' where
    p: "position_prefix demo_engine (variant_flags demo_engine (Options demo_state))
          (istringstream_of ''startpos e2e4 e7e5'') = Some (StartFEN, t', is')"
      "remaining is' = [''e7e5'']"
    by (auto simp: demo_variant demo_horde)
  have a: "position demo_engine demo_state (istringstream_of ''startpos e2e4 e7e5'')
       = demo_state\<lparr>pos := (StartFEN, 0, [''e7e5'']), SetupStates := Some [''e7e5'']\<rparr>"
    using position_replay_tokens [OF p]
    by (simp add: demo_variant demo_pos_set demo_replay_Cons del: replay.simps(2))
  from t n pl a show ?thesis by blast
qed

section \<open>position: the variant flags\<close>

text \<open>
  C8. Every run of \<^verbatim>\<open>position\<close> computes the variant flags from the options as they
  are at that moment: the value is the standard variant with one bit OR-ed in for each
  variant option that is on, and it is this value that \<^verbatim>\<open>set\<close> receives. Two states
  with the same options and the same position give the same result whatever else differs
  in them, so nothing is carried over from an earlier command; and \<^verbatim>\<open>position\<close> itself
  leaves the options alone.
\<close>

theorem position_variant_flags_fresh:
  "variant_flags e (Options s) = variant_flags_spec e (Options s)
   \<and> (position_prefix e (variant_flags e (Options s)) is = Some (fen, t, is') \<longrightarrow>
        position e s is =
          s\<lparr>pos := fst (replay e (pos_set e fen (variant_flags e (Options s)) (pos s)) []
                          (remaining is')),
            SetupStates := Some (snd (replay e (pos_set e fen (variant_flags e (Options s)) (pos s)) []
                          (remaining is')))\<rparr>)
   \<and> (Options s' = Options s \<and> pos s' = pos s
        \<and> position_prefix e (variant_flags e (Options s)) is \<noteq> None \<longrightarrow>
        pos (position e s' is) = pos (position e s is)
        \<and> SetupStates (position e s' is) = SetupStates (position e s is))
   \<and> Options (position e s is) = Options s"
  using variant_flags_eq_spec [of e "Options s"] position_replay_tokens [of e s "is" fen t is']
    position_same_inputs [of s' s e "is"] Options_position [of e s "is"]
  by blast


text \<open>
  Three commands in a row: \<^verbatim>\<open>position startpos\<close> with Chess960 off sets the position
  with flags 0; after \<^verbatim>\<open>setoption name UCI_Chess960 value true\<close> the same command sets
  it with flags 1.
\<close>

theorem position_variant_flags_fresh_witness:
  "position_prefix demo_engine 0 \<lparr>buf = '' startpos'', failbit = False\<rparr>
      = Some (StartFEN, ''startpos'', \<lparr>buf = [], failbit = True\<rparr>)
   \<and> position_prefix demo_engine 1 \<lparr>buf = '' startpos'', failbit = False\<rparr>
      = Some (StartFEN, ''startpos'', \<lparr>buf = [], failbit = True\<rparr>)
   \<and> pos (command demo_engine demo_clock demo_state ''position startpos'') = (StartFEN, 0, [])
   \<and> pos (command demo_engine demo_clock
          (command demo_engine demo_clock
             (command demo_engine demo_clock demo_state ''position startpos'')
             ''setoption name UCI_Chess960 value true'')
          ''position startpos'') = (StartFEN, 1, [])
   \<and> pos (position demo_engine (demo_state\<lparr>out := [''readyok'']\<rparr>)
             \<lparr>buf = '' startpos'', failbit = False\<rparr>)
       = pos (position demo_engine demo_state \<lparr>buf = '' startpos'', failbit = False\<rparr>)"
proof -
  let ?is = "\<lparr>buf = '' startpos'', failbit = False\<rparr>"
  let ?s1 = "command demo_engine demo_clock demo_state ''position startpos''"
  let ?s2 = "command demo_engine demo_clock ?s1 ''setoption name UCI_Chess960 value true''"
  have p0: "position_prefix demo_engine 0 ?is = Some (StartFEN, ''startpos'', \<lparr>buf = [], failbit = True\<rparr>)"
    by (simp add: demo_prefix_startpos)
  have p1: "position_prefix demo_engine 1 ?is = Some (StartFEN, ''startpos'', \<lparr>buf = [], failbit = True\<rparr>)"
    by (simp add: demo_prefix_startpos)
  have r: "remaining \<lparr>buf = [], failbit = True\<rparr> = []"
    by (simp add: remaining_def)
  have s1: "?s1 = demo_state\<lparr>pos := (StartFEN, 0, []), SetupStates := Some []\<rparr>"
    using position_variant_flags_fresh [of demo_engine demo_state ?is StartFEN "''startpos''"
        "\<lparr>buf = [], failbit = True\<rparr>" demo_state] p0
    by (simp add: demo_command_position demo_variant r demo_pos_set)
  have s2: "?s2 = demo_state\<lparr>pos := (StartFEN, 0, []), SetupStates := Some [],
      Options := (Options demo_state)(''UCI_Chess960'' \<mapsto> ''true'')\<rparr>"
    unfolding s1 demo_command_setoption setoption_def demo_parse_chess960
    by (simp add: demo_state_def)
  let ?S2 = "demo_state\<lparr>pos := (StartFEN, 0, []), SetupStates := Some [],
      Options := (Options demo_state)(''UCI_Chess960'' \<mapsto> ''true'')\<rparr>"
  have v2: "variant_flags demo_engine (Options ?S2) = 1"
    by (simp add: variant_flags_def option_set_def demo_engine_def demo_state_def)
  have "position demo_engine ?S2 ?is =
      ?S2\<lparr>pos := fst (replay demo_engine (pos_set demo_engine StartFEN 1 (pos ?S2)) [] []),
          SetupStates := Some (snd (replay demo_engine (pos_set demo_engine StartFEN 1 (pos ?S2)) [] []))\<rparr>"
    using position_variant_flags_fresh [of demo_engine ?S2 ?is StartFEN "''startpos''"
        "\<lparr>buf = [], failbit = True\<rparr>" ?S2] p1
    unfolding v2 r by blast
  then have h3: "pos (position demo_engine ?S2 ?is) = (StartFEN, 1, [])"
    by (simp add: demo_pos_set)
  have s3: "pos (command demo_engine demo_clock ?s2 ''position startpos'') = (StartFEN, 1, [])"
    by (subst s2, subst demo_command_position) (rule h3)
  have same: "pos (position demo_engine (demo_state\<lparr>out := [''readyok'']\<rparr>) ?is)
       = pos (position demo_engine demo_state ?is)"
    using position_variant_flags_fresh [of demo_engine demo_state ?is StartFEN "''startpos''"
        "\<lparr>buf = [], failbit = True\<rparr>" "demo_state\<lparr>out := [''readyok'']\<rparr>"] p0
    by (simp add: demo_variant)
  from p0 p1 s1 s3 same show ?thesis
    by simp
qed

section \<open>command: ponderhit\<close>

text \<open>
  C9. A command line whose first token is \<^verbatim>\<open>ponderhit\<close>: when
  \<^verbatim>\<open>Signals.stopOnPonderhit\<close> is set, the stop signal is raised and the main thread is
  woken, exactly as \<^verbatim>\<open>stop\<close> does; when it is not set, the ponder flag of the current
  limits is cleared, the stop signal keeps its value and no call to the worker is made.
\<close>

theorem ponderhit_dispatch:
  assumes "tokens cmd = ''ponderhit'' # ts"
  shows "(Signals_stopOnPonderhit s \<longrightarrow>
            command e now s cmd
              = s\<lparr>Signals_stop := True, calls := calls s @ [StartSearching True]\<rparr>
            \<and> command e now s cmd = command e now s ''stop'')
         \<and> (\<not> Signals_stopOnPonderhit s \<longrightarrow>
            command e now s cmd = s\<lparr>Limits := (Limits s)\<lparr>ponder := False\<rparr>\<rparr>
            \<and> Signals_stop (command e now s cmd) = Signals_stop s
            \<and> calls (command e now s cmd) = calls s)"
proof -
  from command_first_token [OF assms] obtain is' where
    g: "get_string [] (istringstream_of cmd) = (''ponderhit'', is')" by blast
  have c: "command e now s cmd =
      (if Signals_stopOnPonderhit s
       then s\<lparr>Signals_stop := True, calls := calls s @ [StartSearching True]\<rparr>
       else s\<lparr>Limits := (Limits s)\<lparr>ponder := False\<rparr>\<rparr>)"
    by (simp add: command_def g)
  show ?thesis
    by (simp add: c command_stop)
qed

text \<open>The command \<^verbatim>\<open>ponderhit\<close>, first with the condition off and then with it on.\<close>

theorem ponderhit_dispatch_witness:
  "tokens ''ponderhit'' = ''ponderhit'' # []
   \<and> \<not> Signals_stopOnPonderhit demo_state
   \<and> command demo_engine demo_clock demo_state ''ponderhit''
       = demo_state\<lparr>Limits := (Limits demo_state)\<lparr>ponder := False\<rparr>\<rparr>
   \<and> Signals_stop (command demo_engine demo_clock demo_state ''ponderhit'') = False
   \<and> Signals_stopOnPonderhit (demo_state\<lparr>Signals_stopOnPonderhit := True\<rparr>)
   \<and> command demo_engine demo_clock (demo_state\<lparr>Signals_stopOnPonderhit := True\<rparr>) ''ponderhit''
       = demo_state\<lparr>Signals_stopOnPonderhit := True, Signals_stop := True,
                     calls := [StartSearching True]\<rparr>"
proof -
  have t: "tokens ''ponderhit'' = ''ponderhit'' # []"
    by (simp add: isspace_def)
  have a: "\<not> Signals_stopOnPonderhit demo_state" "Signals_stop demo_state = False"
    "calls demo_state = []"
    by (simp_all add: demo_state_def)
  from ponderhit_dispatch [OF t, of demo_state demo_engine demo_clock]
    ponderhit_dispatch [OF t, of "demo_state\<lparr>Signals_stopOnPonderhit := True\<rparr>" demo_engine
      demo_clock]
    t a
  show ?thesis by simp
qed

section \<open>command: an empty or blank line\<close>

text \<open>
  C10. A command line that is empty or consists of white space only yields no token; the
  token stays empty, no branch of the dispatcher matches, and the last branch writes the
  one block \<^verbatim>\<open>Unknown command: \<close> followed by the line as it was given. The position,
  the stack of setup states and the option registry are unchanged.
\<close>

theorem blank_command_unknown:
  assumes "\<forall>c\<in>set cmd. isspace c"
  shows "command e now s cmd = s\<lparr>out := out s @ [''Unknown command: '' @ cmd]\<rparr>
         \<and> pos (command e now s cmd) = pos s
         \<and> SetupStates (command e now s cmd) = SetupStates s
         \<and> Options (command e now s cmd) = Options s"
proof -
  from assms have "dropWhile isspace cmd = []"
    by simp
  then have "get_string [] (istringstream_of cmd) = ([], \<lparr>buf = [], failbit = True\<rparr>)"
    by (simp add: get_string_def istringstream_of_def)
  then show ?thesis
    by (simp add: command_def)
qed

text \<open>The empty line and a line of three spaces.\<close>

theorem blank_command_unknown_witness:
  "list_all isspace []
   \<and> command demo_engine demo_clock demo_state [] = demo_state\<lparr>out := [''Unknown command: '']\<rparr>
   \<and> list_all isspace ''   ''
   \<and> command demo_engine demo_clock demo_state ''   '' = demo_state\<lparr>out := [''Unknown command:    '']\<rparr>"
proof -
  have a: "\<forall>c\<in>set []. isspace c" by simp
  have b: "\<forall>c\<in>set ''   ''. isspace c" by (simp add: isspace_def)
  have o: "out demo_state = []" by (simp add: demo_state_def)
  from blank_command_unknown [OF a, of demo_engine demo_clock demo_state]
    blank_command_unknown [OF b, of demo_engine demo_clock demo_state] a b o
  show ?thesis by (simp add: list_all_iff)
qed

section \<open>go: searchmoves\<close>

text \<open>
  C1. In \<^verbatim>\<open>go\<close>, once the token \<^verbatim>\<open>searchmoves\<close> is read, every token that follows
  it, to the end of the input, is given to the move parser and its result appended to the
  search moves; no other field of the limits changes. For the input
  \<^verbatim>\<open>searchmoves e2e4 d2d4 depth 10\<close> the tokens \<^verbatim>\<open>depth\<close> and \<^verbatim>\<open>10\<close> are parsed as
  moves, and the depth of the resulting limits is never set.
\<close>

theorem go_searchmoves_greedy:
  assumes "remaining is = ''searchmoves'' # ts"
  shows "go_loop e p t limits is
           = limits\<lparr>searchmoves := searchmoves limits @ map (to_move e p) ts\<rparr>
         \<and> depth (go_loop e p t limits is) = depth limits
         \<and> go_limits e now p (istringstream_of ''searchmoves e2e4 d2d4 depth 10'')
           = LimitsType0\<lparr>startTime := now (istringstream_of ''searchmoves e2e4 d2d4 depth 10''),
               searchmoves := [to_move e p ''e2e4'', to_move e p ''d2d4'',
                               to_move e p ''depth'', to_move e p ''10'']\<rparr>
         \<and> depth (go_limits e now p (istringstream_of ''searchmoves e2e4 d2d4 depth 10'')) = 0"
proof -
  have t: "remaining (istringstream_of ''searchmoves e2e4 d2d4 depth 10'')
      = ''searchmoves'' # [''e2e4'', ''d2d4'', ''depth'', ''10'']"
    by (simp add: isspace_def)
  have ex: "go_limits e now p (istringstream_of ''searchmoves e2e4 d2d4 depth 10'')
           = LimitsType0\<lparr>startTime := now (istringstream_of ''searchmoves e2e4 d2d4 depth 10''),
               searchmoves := [to_move e p ''e2e4'', to_move e p ''d2d4'',
                               to_move e p ''depth'', to_move e p ''10'']\<rparr>"
    unfolding go_limits_def go_loop_searchmoves [OF t]
    by (simp add: LimitsType0_def)
  have "depth (go_limits e now p (istringstream_of ''searchmoves e2e4 d2d4 depth 10'')) = 0"
    unfolding ex by (simp add: LimitsType0_def)
  with ex show ?thesis
    by (simp add: go_loop_searchmoves [OF assms])
qed

text \<open>The same input with the small engine, for which \<^verbatim>\<open>depth\<close> and \<^verbatim>\<open>10\<close> are no moves.\<close>

theorem go_searchmoves_greedy_witness:
  "remaining (istringstream_of ''searchmoves e2e4 d2d4 depth 10'')
      = ''searchmoves'' # [''e2e4'', ''d2d4'', ''depth'', ''10'']
   \<and> go_loop demo_engine ([], 0, []) [] LimitsType0
        (istringstream_of ''searchmoves e2e4 d2d4 depth 10'')
      = LimitsType0\<lparr>searchmoves := [''e2e4'', ''d2d4'', [], []]\<rparr>
   \<and> depth (go_loop demo_engine ([], 0, []) [] LimitsType0
        (istringstream_of ''searchmoves e2e4 d2d4 depth 10'')) = 0"
proof -
  have t: "remaining (istringstream_of ''searchmoves e2e4 d2d4 depth 10'')
      = ''searchmoves'' # [''e2e4'', ''d2d4'', ''depth'', ''10'']"
    by (simp add: isspace_def)
  have m: "to_move demo_engine p t = (if length t = 4 then t else [])" for p t
    by (simp add: demo_engine_def)
  have l: "searchmoves (LimitsType0 :: string LimitsType) = []" "depth (LimitsType0 :: string LimitsType) = 0"
    by (simp_all add: LimitsType0_def)
  from go_searchmoves_greedy [OF t, where e = demo_engine and p = "([], 0, [])" and t = "[]"
      and limits = LimitsType0 and now = demo_clock] t
  show ?thesis
    by (simp add: m l)
qed

section \<open>go: the start time and the fields\<close>

text \<open>
  C6. The start time of the limits that \<^verbatim>\<open>go\<close> builds is the clock read on the stream
  exactly as \<^verbatim>\<open>go\<close> received it, that is before any token is consumed, whatever the
  input; the loop over the tokens never changes it. For the input
  \<^verbatim>\<open>wtime 60000 btime 60000 movestogo 20\<close> the limits have white and black time 60000,
  moves to go 20, every other numeric field zero, the infinite and ponder flags false, and
  the start time read on the whole input. A token that is none of the keywords is skipped:
  the loop goes on with the stream after it, which has not failed, and with the limits
  unchanged. \<^verbatim>\<open>go\<close> writes nothing and hands these limits to the worker together with
  the position and the setup states.
\<close>

theorem go_limits_start_time_and_fields:
  "startTime (go_limits e now p is) = now is
   \<and> startTime (go_loop e p tok limits is) = startTime limits
   \<and> go_limits e now p (istringstream_of ''wtime 60000 btime 60000 movestogo 20'')
       = \<lparr>searchmoves = [], time_WHITE = 60000, time_BLACK = 60000, inc_WHITE = 0,
          inc_BLACK = 0, movestogo = 20, depth = 0, nodes = 0, movetime = 0, mate = 0,
          infinite_flag = False, ponder = False,
          startTime = now (istringstream_of ''wtime 60000 btime 60000 movestogo 20'')\<rparr>
   \<and> (remaining is = t # ts \<and> t \<notin> set go_keywords \<longrightarrow>
        go_loop e p tok limits is = go_loop e p t limits (snd (get_string tok is))
        \<and> \<not> failbit (snd (get_string tok is))
        \<and> remaining (snd (get_string tok is)) = ts)
   \<and> out (go e now s is) = out s
   \<and> calls (go e now s is)
       = calls s @ [StartThinking (pos s) (go_limits e now (pos s) is) (SetupStates s)]"
proof -
  have a: "startTime (go_limits e now p is) = now is"
    by (simp add: go_limits_def go_loop_startTime LimitsType0_def)
  have a': "startTime (go_loop e p tok limits is) = startTime limits"
    by (rule go_loop_startTime)
  have b: "go_limits e now p (istringstream_of ''wtime 60000 btime 60000 movestogo 20'')
       = \<lparr>searchmoves = [], time_WHITE = 60000, time_BLACK = 60000, inc_WHITE = 0,
          inc_BLACK = 0, movestogo = 20, depth = 0, nodes = 0, movetime = 0, mate = 0,
          infinite_flag = False, ponder = False,
          startTime = now (istringstream_of ''wtime 60000 btime 60000 movestogo 20'')\<rparr>"
    by (simp add: go_example LimitsType0_def)
  have c: "go_loop e p tok limits is = go_loop e p t limits (snd (get_string tok is))
        \<and> \<not> failbit (snd (get_string tok is))
        \<and> remaining (snd (get_string tok is)) = ts"
    if "remaining is = t # ts" "t \<notin> set go_keywords"
    using go_loop_skip(1) [OF that, of e p tok limits] get_string_Cons [OF that(1), of tok]
    by auto
  have d: "out (go e now s is) = out s"
    by (simp add: go_def)
  have d': "calls (go e now s is)
       = calls s @ [StartThinking (pos s) (go_limits e now (pos s) is) (SetupStates s)]"
    by (simp add: go_def)
  from a a' b c d d' show ?thesis by blast
qed

text \<open>
  The input \<^verbatim>\<open>foo wtime 5\<close>, eleven characters, with the clock of the small engine:
  \<^verbatim>\<open>foo\<close> is skipped and the white time is read; the start time is 89, the clock with
  all eleven characters unread, while the clock on the stream that the loop leaves behind
  shows 100.
\<close>

theorem go_limits_start_time_and_fields_witness:
  "remaining (istringstream_of ''foo wtime 5'') = ''foo'' # [''wtime'', ''5'']
   \<and> ''foo'' \<notin> set go_keywords
   \<and> go_loop demo_engine ([], 0, []) [] LimitsType0 (istringstream_of ''foo wtime 5'')
       = LimitsType0\<lparr>time_WHITE := 5\<rparr>
   \<and> startTime (go_limits demo_engine demo_clock ([], 0, []) (istringstream_of ''foo wtime 5''))
       = 89
   \<and> demo_clock (snd (get_int 0 \<lparr>buf = '' 5'', failbit = False\<rparr>)) = 100"
proof -
  have t: "remaining (istringstream_of ''foo wtime 5'') = ''foo'' # [''wtime'', ''5'']"
    by (simp add: isspace_def)
  have k: "''foo'' \<notin> set go_keywords"
    by (simp add: go_keywords_def)
  have r: "go_loop demo_engine ([], 0, []) ''foo'' LimitsType0
      (snd (get_string [] (istringstream_of ''foo wtime 5''))) = LimitsType0\<lparr>time_WHITE := 5\<rparr>"
    by (simp add: go_loop.simps get_string_def go_token_def get_int_def
        istringstream_of_def isspace_def isdigit_def digits_value_def INT_MAX_def INT_MIN_def
        LimitsType0_def)
  have c: "demo_clock (istringstream_of ''foo wtime 5'') = 89"
    by (simp add: demo_clock_def istringstream_of_def)
  have e: "demo_clock (snd (get_int 0 \<lparr>buf = '' 5'', failbit = False\<rparr>)) = 100"
    by (simp add: demo_clock_def get_int_def isspace_def isdigit_def digits_value_def
        INT_MAX_def INT_MIN_def)
  note th = go_limits_start_time_and_fields [where ?is = "istringstream_of ''foo wtime 5''"
      and t = "''foo''" and ts = "[''wtime'', ''5'']" and e = demo_engine and p = "([], 0, [])"
      and tok = "[]" and limits = LimitsType0 and now = demo_clock and s = demo_state]
  from th t k
  have l: "go_loop demo_engine ([], 0, []) [] LimitsType0 (istringstream_of ''foo wtime 5'')
      = go_loop demo_engine ([], 0, []) ''foo'' LimitsType0
          (snd (get_string [] (istringstream_of ''foo wtime 5'')))"
    by blast
  from th have "startTime (go_limits demo_engine demo_clock ([], 0, [])
      (istringstream_of ''foo wtime 5'')) = demo_clock (istringstream_of ''foo wtime 5'')"
    by blast
  with l r t k c e show ?thesis by simp
qed

end
